theory Spec2Isabelle
  imports Main "HOL-Library.AList" "HOL-Library.Sublist" "HOL-Library.Char_ord"
    "HOL-Library.List_Lexorder"
begin

section \<open>Grammar objects\<close>

text \<open>
  A grammar file is JSON of the TextMate rule schema. \<open>JSON.parse\<close> returns a tree of
  objects; every object the code reads is a rule object, and the grammar itself is the
  outermost one. The properties the code reads are fields of \<open>rule\<close>; the string-valued
  properties it never reads (\<open>match\<close>, \<open>begin\<close>, \<open>end\<close>, ...) are kept in \<open>others\<close>.
  A property that is absent reads as \<open>undefined\<close> in the source and is \<open>None\<close> here.
  An object property holding an object (repository, captures) is an association list in
  the order of \<open>Object.entries\<close>. Every property has the type the schema gives it.
\<close>

datatype rule = Rule
  (name: "string option")
  (scopeName: "string option")
  (contentName: "string option")
  (includeRef: "string option")
  (patterns: "rule list option")
  (repository: "(string \<times> rule) list option")
  (captures: "(string \<times> rule) list option")
  (beginCaptures: "(string \<times> rule) list option")
  (endCaptures: "(string \<times> rule) list option")
  (fileTypes: "string list option")
  (firstLineMatch: "string option")
  (others: "(string \<times> string) list")

text \<open>JavaScript truthiness of an optional string: \<open>undefined\<close> and \<open>""\<close> are falsy.\<close>

fun truthy :: "string option \<Rightarrow> bool" where
  "truthy None = False"
| "truthy (Some s) = (s \<noteq> [])"

text \<open>
  \<open>deepcopy\<close> of a parsed grammar: a structurally equal tree that shares no object with
  its argument. On immutable values that is the value itself.
\<close>

definition deepcopy :: "rule \<Rightarrow> rule" where
  "deepcopy g = g"

section \<open>The grammar store\<close>

text \<open>
  The static fields of class \<open>Grammars\<close>. The two maps are JavaScript objects keyed by
  scope name, read with \<open>Object.entries\<close> in insertion order: association lists, written
  with \<open>AList.update\<close> (an existing key keeps its place, a new key goes last).
  \<open>loadedGrammars\<close> maps the paths already loaded to \<open>true\<close>: a set. (A key that is the
  decimal form of an array index would come first in \<open>Object.entries\<close>; scope names are
  dotted names, not such keys.)

  The class is modelled from its later version, the one that takes \<open>scopes2keep\<close> as an
  argument of \<open>pruneGrammars\<close> and has the loaded-path set. The earlier version
  (\<open>src/src/grammars.mjs\<close>) builds \<open>scopes2keep\<close> from the registered actions and has no
  loaded-path set; the functions nested in \<open>pruneGrammars\<close>, \<open>chooseBaseScope\<close> and the
  registration part of \<open>loadGrammarFrom\<close> are the same in both.
\<close>

record grammars =
  scope2grammar :: "(string \<times> rule) list"
  originalScope2grammar :: "(string \<times> rule) list"
  loadedGrammars :: "string set"

definition initGrammars :: grammars where
  "initGrammars = \<lparr>scope2grammar = [], originalScope2grammar = [], loadedGrammars = {}\<rparr>"

text \<open>What the logger receives: the level and the message.\<close>

datatype log = Trace string | Debug string | Warn string

text \<open>
  The collaborators of \<open>loadGrammarFrom\<close> that are not part of this module:
  \<open>Config.normalizePath\<close>, \<open>fsp.readFile\<close> (\<open>None\<close> when it rejects) and \<open>JSON.parse\<close>
  (\<open>None\<close> when it throws).
\<close>

record loader =
  normalizePath :: "string \<Rightarrow> string"
  readFile :: "string \<Rightarrow> string option"
  parseJSON :: "string \<Rightarrow> rule option"

datatype load_error = ReadFailed | ParseFailed

text \<open>The loop that rebuilds the working map from the originals, one key at a time.\<close>

definition rebuild :: "(string \<times> rule) list \<Rightarrow> (string \<times> rule) list \<Rightarrow> (string \<times> rule) list" where
  "rebuild working originals =
     foldl (\<lambda>w (aScope, aGrammar). AList.update aScope (deepcopy aGrammar) w) working originals"

text \<open>
  \<open>register\<close> is the part of \<open>loadGrammarFrom\<close> after the file has been parsed: the
  grammar is stored under its \<open>scopeName\<close> (when that is truthy), with a warning when
  the key is already there, and the working map is rebuilt.
\<close>

definition register :: "rule \<Rightarrow> grammars \<Rightarrow> log list \<times> grammars" where
  "register aGrammar G =
     (let (logs, originals) =
        (if truthy (scopeName aGrammar) then
           (let baseScope = the (scopeName aGrammar) in
            ((if map_of (originalScope2grammar G) baseScope \<noteq> None
              then [Warn (''WARNING: you are over-writing an existing '' @ baseScope @ '' grammar'')]
              else []),
             AList.update baseScope aGrammar (originalScope2grammar G)))
         else ([], originalScope2grammar G))
      in (logs, G\<lparr>originalScope2grammar := originals,
                   scope2grammar := rebuild (scope2grammar G) originals\<rparr>))"

text \<open>
  \<open>loadGrammarFrom\<close> returns the error that rejected the promise (if any), the log and
  the new store. The path is marked as loaded before the file is read, as in the source.
\<close>

definition loadGrammarFrom ::
  "loader \<Rightarrow> string \<Rightarrow> grammars \<Rightarrow> load_error option \<times> log list \<times> grammars" where
  "loadGrammarFrom env aGrammarPath G =
     (if suffix ''.json'' aGrammarPath then
        (if aGrammarPath \<in> loadedGrammars G then
           (None, [Trace (''Warning you have already loaded '' @ aGrammarPath)], G)
         else
           (let p = normalizePath env aGrammarPath in
            if p \<in> loadedGrammars G then
              (None, [Trace (''Warning you have already loaded '' @ p)], G)
            else
              (let G1 = G\<lparr>loadedGrammars := insert p (loadedGrammars G)\<rparr>;
                   l1 = [Debug (''loading grammar from '' @ p)]
               in case readFile env p of
                    None \<Rightarrow> (Some ReadFailed, l1, G1)
                  | Some aGrammarStr \<Rightarrow>
                      (case parseJSON env aGrammarStr of
                         None \<Rightarrow> (Some ParseFailed, l1, G1)
                       | Some aGrammar \<Rightarrow>
                           (let (l2, G2) = register aGrammar G1 in (None, l1 @ l2, G2))))))
      else (None, [Warn ''At the moment we can ONLY load JSON Grammars!''], G))"

text \<open>
  Between two operations the keys of the working map are the keys of the originals, in
  the same order, and no key occurs twice (the maps are objects).
\<close>

definition store_inv :: "grammars \<Rightarrow> bool" where
  "store_inv G \<longleftrightarrow>
     distinct (map fst (originalScope2grammar G)) \<and>
     map fst (scope2grammar G) = map fst (originalScope2grammar G)"

section \<open>The known scopes\<close>

text \<open>
  \<open>getKnownScopes\<close> collects names as keys of the object \<open>knownScopes\<close> and returns its keys,
  sorted. The functions here return the names in the order in which the source adds them;
  the keys of the object are that list without repetitions.
\<close>

definition scopeOf :: "string option \<Rightarrow> string list" where
  "scopeOf aName = (if truthy aName then [the aName] else [])"

fun addScopesFromRule :: "rule \<Rightarrow> string list"
  and addScopesFromPatterns :: "rule list \<Rightarrow> string list"
  and addScopesFromRepository :: "(string \<times> rule) list \<Rightarrow> string list"
  and addScopesFromCaptures :: "(string \<times> rule) list \<Rightarrow> string list" where
  "addScopesFromRule (Rule n sn cn inc pats repo caps bcaps ecaps exts flm oth) =
     scopeOf n @ scopeOf sn @ scopeOf cn
     @ (case pats of None \<Rightarrow> [] | Some somePatterns \<Rightarrow> addScopesFromPatterns somePatterns)
     @ (case repo of None \<Rightarrow> [] | Some aRepository \<Rightarrow> addScopesFromRepository aRepository)
     @ (case caps of None \<Rightarrow> [] | Some someCaptures \<Rightarrow> addScopesFromCaptures someCaptures)
     @ (case bcaps of None \<Rightarrow> [] | Some someCaptures \<Rightarrow> addScopesFromCaptures someCaptures)
     @ (case ecaps of None \<Rightarrow> [] | Some someCaptures \<Rightarrow> addScopesFromCaptures someCaptures)"
| "addScopesFromPatterns [] = []"
| "addScopesFromPatterns (aPattern # rest) = addScopesFromRule aPattern @ addScopesFromPatterns rest"
| "addScopesFromRepository [] = []"
| "addScopesFromRepository ((aKey, aValue) # rest) = addScopesFromRule aValue @ addScopesFromRepository rest"
| "addScopesFromCaptures [] = []"
| "addScopesFromCaptures ((aKey, aValue) # rest) = addScopesFromRule aValue @ addScopesFromCaptures rest"

fun knownScopesLoop :: "(string \<times> rule) list \<Rightarrow> string list" where
  "knownScopesLoop [] = []"
| "knownScopesLoop ((aScope, aGrammar) # rest) =
     aScope
     # (case patterns aGrammar of None \<Rightarrow> [] | Some somePatterns \<Rightarrow> addScopesFromPatterns somePatterns)
     @ (case repository aGrammar of None \<Rightarrow> [] | Some aRepository \<Rightarrow> addScopesFromRepository aRepository)
     @ knownScopesLoop rest"

definition getKnownScopes :: "grammars \<Rightarrow> string list" where
  "getKnownScopes G = sort (remdups (knownScopesLoop (scope2grammar G)))"

text \<open>The keep-set whose keys are the given scopes, each with the value \<open>true\<close>.\<close>

definition keepSetOf :: "string list \<Rightarrow> (string \<rightharpoonup> bool)" where
  "keepSetOf ks = (\<lambda>aScope. if aScope \<in> set ks then Some True else None)"

section \<open>Pruning the grammars\<close>

text \<open>
  \<open>pruneGrammars\<close> works on deep copies of the original grammars and changes them in
  place: \<open>splice\<close> removes elements of pattern arrays, \<open>delete\<close> removes keys of a grammar's
  repository. A repository rule is reached through every \<open>include\<close> that names it, so the
  same array can be reached, and spliced, along several paths. The arrays are therefore
  kept in a store: \<open>heap\<close> is the list of the pattern arrays of the working copies, and
  the address of an array is its index. A rule object is never assigned to; in the working
  copy it is its properties (\<open>props\<close>, without \<open>patterns\<close>) and the address of its \<open>patterns\<close>
  array (\<open>patternsRef\<close>). A grammar object is its properties, the address of its root
  \<open>patterns\<close> array and its repository.
\<close>

type_synonym addr = nat

datatype hrule = HRule (props: rule) (patternsRef: "addr option")

type_synonym heap = "hrule list list"

record hgrammar =
  gprops :: rule
  gpatternsRef :: "addr option"
  grepository :: "(string \<times> hrule) list option"

text \<open>An object with its \<open>patterns\<close>, or its \<open>repository\<close>, replaced.\<close>

fun withPatterns :: "rule list option \<Rightarrow> rule \<Rightarrow> rule" where
  "withPatterns ps (Rule n sn cn inc pats repo caps bcaps ecaps exts flm oth) =
     Rule n sn cn inc ps repo caps bcaps ecaps exts flm oth"

fun withRepository :: "(string \<times> rule) list option \<Rightarrow> rule \<Rightarrow> rule" where
  "withRepository r (Rule n sn cn inc pats repo caps bcaps ecaps exts flm oth) =
     Rule n sn cn inc pats r caps bcaps ecaps exts flm oth"

text \<open>
  \<open>deepcopy\<close> into the store: every pattern array of the original is allocated at a new
  address (the arrays inside a rule before the array that holds the rule).
\<close>

fun copyRule :: "rule \<Rightarrow> heap \<Rightarrow> hrule \<times> heap"
  and copyRules :: "rule list \<Rightarrow> heap \<Rightarrow> hrule list \<times> heap" where
  "copyRule (Rule n sn cn inc pats repo caps bcaps ecaps exts flm oth) h =
     (case pats of
        None \<Rightarrow> (HRule (Rule n sn cn inc None repo caps bcaps ecaps exts flm oth) None, h)
      | Some ps \<Rightarrow>
          (case copyRules ps h of
             (hps, h1) \<Rightarrow>
               (HRule (Rule n sn cn inc None repo caps bcaps ecaps exts flm oth) (Some (length h1)),
                h1 @ [hps])))"
| "copyRules [] h = ([], h)"
| "copyRules (r # rs) h =
     (case copyRule r h of
        (hr, h1) \<Rightarrow> (case copyRules rs h1 of (hrs, h2) \<Rightarrow> (hr # hrs, h2)))"

fun copyEntries :: "(string \<times> rule) list \<Rightarrow> heap \<Rightarrow> (string \<times> hrule) list \<times> heap" where
  "copyEntries [] h = ([], h)"
| "copyEntries ((aKey, aRule) # rest) h =
     (case copyRule aRule h of
        (hr, h1) \<Rightarrow> (case copyEntries rest h1 of (hes, h2) \<Rightarrow> ((aKey, hr) # hes, h2)))"

definition copyGrammar :: "rule \<Rightarrow> heap \<Rightarrow> hgrammar \<times> heap" where
  "copyGrammar g h =
     (case (case patterns g of
              None \<Rightarrow> (None, h)
            | Some ps \<Rightarrow> (case copyRules ps h of (hps, h1) \<Rightarrow> (Some (length h1), h1 @ [hps]))) of
        (pref, h1) \<Rightarrow>
          (case (case repository g of
                   None \<Rightarrow> (None, h1)
                 | Some es \<Rightarrow> (case copyEntries es h1 of (hes, h2) \<Rightarrow> (Some hes, h2))) of
             (repo, h2) \<Rightarrow>
               (\<lparr>gprops = withRepository None (withPatterns None g), gpatternsRef = pref,
                 grepository = repo\<rparr>, h2)))"

fun copyAll :: "(string \<times> rule) list \<Rightarrow> heap \<Rightarrow> (string \<times> hgrammar) list \<times> heap" where
  "copyAll [] h = ([], h)"
| "copyAll ((aScope, aGrammar) # rest) h =
     (case copyGrammar aGrammar h of
        (hg, h1) \<Rightarrow> (case copyAll rest h1 of (hgs, h2) \<Rightarrow> ((aScope, hg) # hgs, h2)))"

text \<open>
  Reading the working copies back as trees, which is what the rest of the program sees of
  them after the pruning. The arrays are read in the order of their addresses; a rule
  refers to an array allocated before the array that holds it, and \<open>None\<close> is the result
  for a store where that is not so (no store made by \<open>copyAll\<close> is like that).
\<close>

definition readRule :: "rule list list \<Rightarrow> hrule \<Rightarrow> rule option" where
  "readRule arrays r =
     (case patternsRef r of
        None \<Rightarrow> Some (props r)
      | Some a \<Rightarrow> if a < length arrays then Some (withPatterns (Some (arrays ! a)) (props r)) else None)"

definition readHeap :: "heap \<Rightarrow> rule list list option" where
  "readHeap h =
     foldl (\<lambda>acc arr.
        case acc of
          None \<Rightarrow> None
        | Some arrays \<Rightarrow>
            (case those (map (readRule arrays) arr) of
               None \<Rightarrow> None
             | Some ps \<Rightarrow> Some (arrays @ [ps])))
       (Some []) h"

definition readEntries :: "rule list list \<Rightarrow> (string \<times> hrule) list \<Rightarrow> (string \<times> rule) list option" where
  "readEntries arrays es = those (map (\<lambda>(aKey, r). map_option (Pair aKey) (readRule arrays r)) es)"

definition readGrammar :: "rule list list \<Rightarrow> hgrammar \<Rightarrow> rule option" where
  "readGrammar arrays g =
     (case (case gpatternsRef g of
              None \<Rightarrow> Some None
            | Some a \<Rightarrow> if a < length arrays then Some (Some (arrays ! a)) else None) of
        None \<Rightarrow> None
      | Some pats \<Rightarrow>
          (case (case grepository g of
                   None \<Rightarrow> Some None
                 | Some es \<Rightarrow> map_option Some (readEntries arrays es)) of
             None \<Rightarrow> None
           | Some repo \<Rightarrow> Some (withRepository repo (withPatterns pats (gprops g)))))"

definition readGrammars :: "rule list list \<Rightarrow> (string \<times> hgrammar) list \<Rightarrow> (string \<times> rule) list option" where
  "readGrammars arrays gs =
     those (map (\<lambda>(aScope, g). map_option (Pair aScope) (readGrammar arrays g)) gs)"

definition readAll :: "heap \<Rightarrow> (string \<times> hgrammar) list \<Rightarrow> (string \<times> rule) list option" where
  "readAll h gs = (case readHeap h of None \<Rightarrow> None | Some arrays \<Rightarrow> readGrammars arrays gs)"

text \<open>
  What the nested functions of \<open>pruneGrammars\<close> share: the store, the working map \<open>s2g\<close>,
  the caller's object \<open>scopes2keep\<close> (a scope is kept when its value is truthy) and
  \<open>knownBaseScopes\<close>. Reading a key of \<open>Object.prototype\<close> in one of these objects is left
  out: scope names and repository keys are taken not to be such keys. The calls of the
  logger are left out as well.
\<close>

record pruning =
  heap :: heap
  s2g :: "(string \<times> hgrammar) list"
  scopes2keep :: "string \<rightharpoonup> bool"
  knownBaseScopes :: "string set"

definition kept :: "pruning \<Rightarrow> string \<Rightarrow> bool" where
  "kept st aScope \<longleftrightarrow> scopes2keep st aScope = Some True"

definition keepScope :: "pruning \<Rightarrow> string option \<Rightarrow> bool" where
  "keepScope st aScope =
     (if \<not> truthy aScope then False
      else if kept st (the aScope) then True
      else False)"

text \<open>
  \<open>keepCapture\<close> reads \<open>scopes2keep[aCapture['name']]\<close>: for a capture with no name the key
  is the string \<open>undefined\<close>.
\<close>

fun captureLoop :: "pruning \<Rightarrow> (string \<times> rule) list \<Rightarrow> bool" where
  "captureLoop st [] = False"
| "captureLoop st ((aCaptureNum, aCapture) # rest) =
     (if kept st (case name aCapture of None \<Rightarrow> ''undefined'' | Some n \<Rightarrow> n) then True
      else captureLoop st rest)"

definition keepCapture :: "pruning \<Rightarrow> (string \<times> rule) list option \<Rightarrow> bool" where
  "keepCapture st someCaptures =
     (case someCaptures of None \<Rightarrow> False | Some cs \<Rightarrow> captureLoop st cs)"

text \<open>
  The array at an address, and \<open>somePatterns.splice(anIndex, 1)\<close> for each index of
  \<open>pats2delete\<close> in turn (an index beyond the end removes nothing).
\<close>

definition arrayAt :: "heap \<Rightarrow> addr \<Rightarrow> hrule list" where
  "arrayAt h a = (if a < length h then h ! a else [])"

fun splices :: "nat list \<Rightarrow> 'a list \<Rightarrow> 'a list" where
  "splices [] xs = xs"
| "splices (anIndex # rest) xs = splices rest (take anIndex xs @ drop (Suc anIndex) xs)"

text \<open>
  The five mutually recursive functions. The recursion of the source need not end, so
  each function takes fuel, a bound on the depth of calls still allowed, and returns \<open>None\<close>
  when it runs out. \<open>patterns2keep\<close> is the object one call of \<open>keepGrammar\<close> creates and its
  callees fill; it is passed on and returned. \<open>gRepo\<close> is the repository of the grammar being
  walked, which nothing changes before the walk is over. \<open>patternsLoop\<close> is the \<open>for ... of\<close>
  loop of \<open>keepPatterns\<close>: the iterator reads the length and the element of the array at
  each step, so each step reads the store again. \<open>pats2delete.unshift\<close> is \<open>#\<close>. The result
  of \<open>keepGrammar\<close> and of \<open>keepInclude\<close> is used as a condition only, so it is its truth
  value that is returned.
\<close>

function (sequential) keepPatterns ::
    "nat \<Rightarrow> addr option \<Rightarrow> string set \<Rightarrow> (string \<times> hrule) list \<Rightarrow> pruning
     \<Rightarrow> (bool \<times> string set \<times> pruning) option"
  and patternsLoop ::
    "nat \<Rightarrow> addr \<Rightarrow> nat \<Rightarrow> nat list \<Rightarrow> string set \<Rightarrow> (string \<times> hrule) list \<Rightarrow> pruning
     \<Rightarrow> (nat list \<times> string set \<times> pruning) option"
  and keepRule ::
    "nat \<Rightarrow> hrule option \<Rightarrow> string set \<Rightarrow> (string \<times> hrule) list \<Rightarrow> pruning
     \<Rightarrow> (bool \<times> string set \<times> pruning) option"
  and keepInclude ::
    "nat \<Rightarrow> string option \<Rightarrow> string set \<Rightarrow> (string \<times> hrule) list \<Rightarrow> pruning
     \<Rightarrow> (bool \<times> string set \<times> pruning) option"
  and keepGrammar ::
    "nat \<Rightarrow> string \<Rightarrow> hgrammar \<Rightarrow> pruning \<Rightarrow> (bool \<times> pruning) option" where
  "keepPatterns 0 somePatterns patterns2keep gRepo st = None"
| "keepPatterns (Suc fuel) somePatterns patterns2keep gRepo st =
     (case somePatterns of
        None \<Rightarrow> Some (False, patterns2keep, st)
      | Some a \<Rightarrow>
          (case patternsLoop fuel a 0 [] patterns2keep gRepo st of
             None \<Rightarrow> None
           | Some (pats2delete, p2k1, st1) \<Rightarrow>
               Some (0 < length (splices pats2delete (arrayAt (heap st1) a)), p2k1,
                     st1\<lparr>heap := (heap st1)[a := splices pats2delete (arrayAt (heap st1) a)]\<rparr>)))"
| "patternsLoop 0 a anIndex pats2delete patterns2keep gRepo st = None"
| "patternsLoop (Suc fuel) a anIndex pats2delete patterns2keep gRepo st =
     (if anIndex < length (arrayAt (heap st) a) then
        (case keepRule fuel (Some (arrayAt (heap st) a ! anIndex)) patterns2keep gRepo st of
           None \<Rightarrow> None
         | Some (keep, p2k1, st1) \<Rightarrow>
             patternsLoop fuel a (Suc anIndex)
               (if keep then pats2delete else anIndex # pats2delete) p2k1 gRepo st1)
      else Some (pats2delete, patterns2keep, st))"
| "keepRule 0 aRule patterns2keep gRepo st = None"
| "keepRule (Suc fuel) aRule patterns2keep gRepo st =
     (case aRule of
        None \<Rightarrow> Some (False, patterns2keep, st)
      | Some r \<Rightarrow>
          if keepScope st (name (props r)) then Some (True, patterns2keep, st)
          else if keepScope st (contentName (props r)) then Some (True, patterns2keep, st)
          else if keepCapture st (captures (props r)) then Some (True, patterns2keep, st)
          else if keepCapture st (beginCaptures (props r)) then Some (True, patterns2keep, st)
          else if keepCapture st (endCaptures (props r)) then Some (True, patterns2keep, st)
          else
            (case keepPatterns fuel (patternsRef r) patterns2keep gRepo st of
               None \<Rightarrow> None
             | Some (keepThem, p2k1, st1) \<Rightarrow>
                 if keepThem then Some (True, p2k1, st1)
                 else
                   (case keepInclude fuel (includeRef (props r)) p2k1 gRepo st1 of
                      None \<Rightarrow> None
                    | Some (keepIt, p2k2, st2) \<Rightarrow>
                        if keepIt then Some (True, insert (the (includeRef (props r))) p2k2, st2)
                        else Some (False, p2k2, st2))))"
| "keepInclude 0 anInclude patterns2keep gRepo st = None"
| "keepInclude (Suc fuel) anInclude patterns2keep gRepo st =
     (if \<not> truthy anInclude then Some (False, patterns2keep, st)
      else if prefix ''$'' (the anInclude) then Some (False, patterns2keep, st)
      else if prefix ''#'' (the anInclude) then
        (if the anInclude \<in> patterns2keep then Some (True, patterns2keep, st)
         else keepRule fuel (map_of gRepo (drop 1 (the anInclude))) patterns2keep gRepo st)
      else if kept st (the anInclude) then Some (True, patterns2keep, st)
      else
        (case map_of (s2g st) (the anInclude) of
           None \<Rightarrow> Some (False, patterns2keep, st)
         | Some g \<Rightarrow>
             (case keepGrammar fuel (the anInclude) g st of
                None \<Rightarrow> None
              | Some (keepIt, st1) \<Rightarrow> Some (keepIt, patterns2keep, st1))))"
| "keepGrammar 0 aBaseScope aGrammar st = None"
| "keepGrammar (Suc fuel) aBaseScope aGrammar st =
     (if aBaseScope \<in> knownBaseScopes st then Some (kept st aBaseScope, st)
      else if kept st aBaseScope
      then Some (True, st\<lparr>knownBaseScopes := insert aBaseScope (knownBaseScopes st)\<rparr>)
      else
        (case gpatternsRef aGrammar of
           None \<Rightarrow> Some (False, st\<lparr>knownBaseScopes := insert aBaseScope (knownBaseScopes st)\<rparr>)
         | Some a \<Rightarrow>
             (case keepPatterns fuel (Some a) {}
                     (case grepository aGrammar of None \<Rightarrow> [] | Some r \<Rightarrow> r)
                     (st\<lparr>knownBaseScopes := insert aBaseScope (knownBaseScopes st)\<rparr>) of
                None \<Rightarrow> None
              | Some (keepThePatterns, p2k, st1) \<Rightarrow>
                  Some (keepThePatterns,
                    st1\<lparr>s2g :=
                          (case grepository aGrammar of
                             None \<Rightarrow> s2g st1
                           | Some r \<Rightarrow>
                               AList.update aBaseScope
                                 (aGrammar\<lparr>grepository :=
                                    Some (filter (\<lambda>(aRepoKey, aRule). (''#'' @ aRepoKey) \<in> p2k) r)\<rparr>)
                                 (s2g st1)),
                        scopes2keep := (scopes2keep st1)(aBaseScope \<mapsto> keepThePatterns)\<rparr>))))"
  by pat_completeness auto
termination
  by (relation "measure (case_sum (case_sum fst fst) (case_sum fst (case_sum fst fst)))") auto

text \<open>The loop over \<open>Object.entries(s2g)\<close>, and \<open>pruneGrammars\<close>.\<close>

fun pruneLoop :: "nat \<Rightarrow> (string \<times> hgrammar) list \<Rightarrow> pruning \<Rightarrow> pruning option" where
  "pruneLoop fuel [] st = Some st"
| "pruneLoop fuel ((aBaseScope, aGrammar) # rest) st =
     (case keepGrammar fuel aBaseScope aGrammar st of
        None \<Rightarrow> None
      | Some (keepIt, st1) \<Rightarrow> pruneLoop fuel rest st1)"

definition pruneGrammars ::
  "nat \<Rightarrow> (string \<rightharpoonup> bool) \<Rightarrow> grammars \<Rightarrow> (grammars \<times> (string \<rightharpoonup> bool)) option" where
  "pruneGrammars fuel keepSet G =
     (case copyAll (originalScope2grammar G) [] of
        (gs, h) \<Rightarrow>
          (case pruneLoop fuel gs
                  \<lparr>heap = h, s2g = gs, scopes2keep = keepSet, knownBaseScopes = {}\<rparr> of
             None \<Rightarrow> None
           | Some st \<Rightarrow>
               (case readAll (heap st) (s2g st) of
                  None \<Rightarrow> None
                | Some working \<Rightarrow> Some (G\<lparr>scope2grammar := working\<rparr>, scopes2keep st))))"

section \<open>Regular expressions\<close>

text \<open>
  \<open>aString.match(aPattern)\<close> with a pattern that is a string first compiles the string as a
  JavaScript regular expression, and throws a \<open>SyntaxError\<close> when it is not one; otherwise it
  says whether the expression matches somewhere in the string. The engine is not part of
  this module: \<open>compiles\<close> says which strings it accepts as patterns, and \<open>matchesIn\<close> says
  whether a pattern matches in a string. \<open>jsMatch\<close> is \<open>None\<close> where the source throws.
\<close>

record regexEngine =
  compiles :: "string \<Rightarrow> bool"
  matchesIn :: "string \<Rightarrow> string \<Rightarrow> bool"

definition jsMatch :: "regexEngine \<Rightarrow> string \<Rightarrow> string \<Rightarrow> bool option" where
  "jsMatch E aString aPattern =
     (if compiles E aPattern then Some (matchesIn E aPattern aString) else None)"

datatype js_error = SyntaxError

section \<open>Choosing the grammar of a document\<close>

text \<open>
  \<open>chooseBaseScope\<close> makes two passes over \<open>Object.entries(Grammars.scope2grammar)\<close>. The
  first pass tests \<open>aFirstLine.match(aGrammar['firstLineMatch'])\<close> for every grammar whose
  \<open>firstLineMatch\<close> is truthy, and throws when that string does not compile. \<open>endsWith\<close>
  is \<open>suffix\<close>. The function returns the scope, or \<open>undefined\<close> (\<open>None\<close>) after the second
  loop. Its calls of the logger are left out: they do not change what it returns.
\<close>

fun firstLineLoop :: "regexEngine \<Rightarrow> string \<Rightarrow> (string \<times> rule) list \<Rightarrow> js_error + string option" where
  "firstLineLoop E aFirstLine [] = Inr None"
| "firstLineLoop E aFirstLine ((aBaseScope, aGrammar) # rest) =
     (if truthy (firstLineMatch aGrammar) then
        (case jsMatch E aFirstLine (the (firstLineMatch aGrammar)) of
           None \<Rightarrow> Inl SyntaxError
         | Some found \<Rightarrow>
             if found then Inr (Some aBaseScope) else firstLineLoop E aFirstLine rest)
      else firstLineLoop E aFirstLine rest)"

fun fileExtLoop :: "string \<Rightarrow> string list \<Rightarrow> bool" where
  "fileExtLoop aDocPath [] = False"
| "fileExtLoop aDocPath (aFileExt # rest) =
     (if suffix aFileExt aDocPath then True else fileExtLoop aDocPath rest)"

fun fileTypesLoop :: "string \<Rightarrow> (string \<times> rule) list \<Rightarrow> string option" where
  "fileTypesLoop aDocPath [] = None"
| "fileTypesLoop aDocPath ((aBaseScope, aGrammar) # rest) =
     (case fileTypes aGrammar of
        None \<Rightarrow> fileTypesLoop aDocPath rest
      | Some exts \<Rightarrow>
          if fileExtLoop aDocPath exts then Some aBaseScope else fileTypesLoop aDocPath rest)"

definition chooseBaseScope ::
  "regexEngine \<Rightarrow> grammars \<Rightarrow> string \<Rightarrow> string \<Rightarrow> js_error + string option" where
  "chooseBaseScope E G aDocPath aFirstLine =
     (case firstLineLoop E aFirstLine (scope2grammar G) of
        Inl err \<Rightarrow> Inl err
      | Inr (Some aBaseScope) \<Rightarrow> Inr (Some aBaseScope)
      | Inr None \<Rightarrow> Inr (fileTypesLoop aDocPath (scope2grammar G)))"

text \<open>
  The conditions in the words of the specification: the grammar has a first-line pattern
  and it matches the line; one of the grammar's file types ends the path. And the
  condition the source adds: the grammar's first-line pattern, if it has one, compiles.
\<close>

definition firstLineMatches :: "regexEngine \<Rightarrow> string \<Rightarrow> rule \<Rightarrow> bool" where
  "firstLineMatches E aFirstLine g \<longleftrightarrow>
     (\<exists>p. firstLineMatch g = Some p \<and> p \<noteq> [] \<and> matchesIn E p aFirstLine)"

definition firstLineCompiles :: "regexEngine \<Rightarrow> rule \<Rightarrow> bool" where
  "firstLineCompiles E g \<longleftrightarrow>
     (case firstLineMatch g of None \<Rightarrow> True | Some p \<Rightarrow> p = [] \<or> compiles E p)"

definition fileTypeMatches :: "string \<Rightarrow> rule \<Rightarrow> bool" where
  "fileTypeMatches aDocPath g \<longleftrightarrow>
     (\<exists>exts. fileTypes g = Some exts \<and> (\<exists>e \<in> set exts. suffix e aDocPath))"

section \<open>Documents\<close>

record document =
  filePath :: string
  docName :: string
  docLines :: "string list"

definition newDocument :: document where
  "newDocument = \<lparr>filePath = [], docName = [], docLines = []\<rparr>"

text \<open>\<open>aDocStr.split('\n')\<close>: the pieces between line feeds, at least one.\<close>

fun splitLines :: "string \<Rightarrow> string list" where
  "splitLines [] = [[]]"
| "splitLines (c # cs) =
     (if c = CHR 0x0A then [] # splitLines cs
      else (case splitLines cs of [] \<Rightarrow> [[c]] | l # ls \<Rightarrow> (c # l) # ls))"

definition refreshFromStr :: "string \<Rightarrow> string \<Rightarrow> document \<Rightarrow> document" where
  "refreshFromStr aDocName aDocStr d = d\<lparr>docName := aDocName, docLines := splitLines aDocStr\<rparr>"

text \<open>
  \<open>Document.loadFromFile\<close>: \<open>None\<close> when \<open>fsp.readFile\<close> rejects. \<open>Cfgr.normalizePath\<close> and
  the file system are those of the \<open>loader\<close>.
\<close>

definition Document_loadFromFile :: "loader \<Rightarrow> string \<Rightarrow> document \<Rightarrow> document option" where
  "Document_loadFromFile env aPath d =
     (let d1 = d\<lparr>filePath := normalizePath env aPath\<rparr>
      in case readFile env (filePath d1) of
           None \<Rightarrow> None
         | Some aDocStr \<Rightarrow> Some (refreshFromStr aPath aDocStr d1))"

text \<open>\<open>DocumentCache.documents\<close> is a \<open>Map\<close> from names to documents.\<close>

type_synonym documentCache = "string \<rightharpoonup> document"

definition hasDocument :: "documentCache \<Rightarrow> string \<Rightarrow> bool" where
  "hasDocument documents aPath \<longleftrightarrow> documents aPath \<noteq> None"

definition getDocument :: "documentCache \<Rightarrow> string \<Rightarrow> document option" where
  "getDocument documents aPath = documents aPath"

definition loadFromFile :: "loader \<Rightarrow> string \<Rightarrow> documentCache \<Rightarrow> document option \<times> documentCache" where
  "loadFromFile env aPath documents =
     (case Document_loadFromFile env aPath newDocument of
        None \<Rightarrow> (None, documents)
      | Some d \<Rightarrow> (Some d, documents(aPath \<mapsto> d)))"

definition loadFromStr :: "string \<Rightarrow> string \<Rightarrow> documentCache \<Rightarrow> document \<times> documentCache" where
  "loadFromStr aName docStr documents =
     (let d = refreshFromStr aName docStr newDocument in (d, documents(aName \<mapsto> d)))"

section \<open>Structures\<close>

text \<open>
  \<open>Structures.structs\<close> is a JavaScript \<open>Map\<close> object. Its entries live in the map's
  internal data (\<open>mapData\<close>), which \<open>has\<close>, \<open>get\<close> and \<open>set\<close> read and write. Like every
  object it also has own enumerable properties (\<open>ownProps\<close>), which is what \<open>Object.keys\<close>
  lists; \<open>new Map()\<close> has none, and no method of \<open>Map\<close> adds one.
\<close>

record 'v jsMap =
  mapData :: "string \<rightharpoonup> 'v"
  ownProps :: "(string \<times> 'v) list"

definition newMap :: "'v jsMap" where
  "newMap = \<lparr>mapData = Map.empty, ownProps = []\<rparr>"

definition newStructure :: "string \<Rightarrow> 'v \<Rightarrow> 'v jsMap \<Rightarrow> 'v option \<times> 'v jsMap" where
  "newStructure aStructureKey aStructureValue structs =
     (let structs1 =
        (if mapData structs aStructureKey = None
         then structs\<lparr>mapData := (mapData structs)(aStructureKey \<mapsto> aStructureValue)\<rparr>
         else structs)
      in (mapData structs1 aStructureKey, structs1))"

definition getStructure :: "string \<Rightarrow> 'v jsMap \<Rightarrow> 'v option" where
  "getStructure aStructureKey structs = mapData structs aStructureKey"

definition getStructureNames :: "'v jsMap \<Rightarrow> string list" where
  "getStructureNames structs = sort (map fst (ownProps structs))"

text \<open>The store after a sequence of registrations, starting from the empty \<open>Map\<close>.\<close>

definition registered :: "(string \<times> 'v) list \<Rightarrow> 'v jsMap" where
  "registered kvs = foldl (\<lambda>s (k, v). snd (newStructure k v s)) newMap kvs"

section \<open>Tracing the parse of a document\<close>

text \<open>
  The configuration: the overall trace flag and the four filters, each a pair of lists
  of regular expressions (the property \<open>include\<close> of the source is \<open>includeRx\<close> here, and
  \<open>exclude\<close> is \<open>excludeRx\<close>); \<open>initialFiles\<close> and \<open>parallel\<close> are read by the runner.
\<close>

record traceOpts =
  excludeRx :: "string list"
  includeRx :: "string list"

record config =
  trace :: bool
  traceLines :: traceOpts
  traceScopes :: traceOpts
  traceActions :: traceOpts
  traceStructures :: traceOpts
  initialFiles :: "string list"
  parallel :: bool

text \<open>A token of the tokenizer, and \<open>String.prototype.substring\<close> on two indices.\<close>

record token =
  startIndex :: nat
  endIndex :: nat
  scopes :: "string list"

definition substring :: "string \<Rightarrow> nat \<Rightarrow> nat \<Rightarrow> string" where
  "substring s a b =
     (let a' = min a (length s); b' = min b (length s)
      in take (max a' b' - min a' b') (drop (min a' b') s))"

text \<open>
  The arguments of one call \<open>anAction.run(aScope, someTokens, lineNum, aDoc, traceOutput)\<close>,
  and an action: its name and what running it does to the structure store.
\<close>

record invocation =
  scope :: string
  matched :: "string list"
  lineNum :: nat
  doc :: document
  traceFlag :: bool

record 'v scopeAction =
  actionName :: string
  run :: "invocation \<Rightarrow> 'v jsMap \<Rightarrow> 'v jsMap"

text \<open>
  What a run of \<open>traceParseOf\<close> does that can be observed, in order: one constructor for
  each place where the source writes to the logger, and \<open>Invoked\<close> for a call of an action.
\<close>

datatype 'v event =
    Excluded string string
  | Included string string
  | NoMatchFound
  | LineShown nat string
  | TokenShown nat nat string
  | ScopeShown string
  | ActionsEnter
  | ScopeTokensShown string "string list"
  | Invoked string invocation
  | StructureLogged string 'v
  | ActionsExit
  | Traced string
  | Warned string

text \<open>
  One of the two loops of \<open>traceObj\<close> over a list of regular expressions: the first one
  that matches \<open>aStr\<close>, or the \<open>SyntaxError\<close> of \<open>aStr.match(aRegExp)\<close> at the first one
  reached that does not compile.
\<close>

fun matchLoop :: "regexEngine \<Rightarrow> string \<Rightarrow> string list \<Rightarrow> js_error + string option" where
  "matchLoop E aStr [] = Inr None"
| "matchLoop E aStr (aRegExp # rest) =
     (case jsMatch E aStr aRegExp of
        None \<Rightarrow> Inl SyntaxError
      | Some found \<Rightarrow> if found then Inr (Some aRegExp) else matchLoop E aStr rest)"

text \<open>
  \<open>traceObj\<close>, for the two values of \<open>config['trace']\<close>: what it returns or throws, and what
  it logs.
\<close>

definition traceObj ::
  "regexEngine \<Rightarrow> bool \<Rightarrow> traceOpts \<Rightarrow> string \<Rightarrow> (js_error + bool) \<times> 'v event list" where
  "traceObj E traceOn traceOpts aStr =
     (if traceOn then
        (case (if 0 < length (excludeRx traceOpts)
               then matchLoop E aStr (excludeRx traceOpts) else Inr None) of
           Inl err \<Rightarrow> (Inl err, [])
         | Inr (Some aRegExp) \<Rightarrow> (Inr False, [Excluded aStr aRegExp])
         | Inr None \<Rightarrow>
             if 0 < length (includeRx traceOpts) then
               (case matchLoop E aStr (includeRx traceOpts) of
                  Inl err \<Rightarrow> (Inl err, [])
                | Inr (Some aRegExp) \<Rightarrow> (Inr True, [Included aStr aRegExp])
                | Inr None \<Rightarrow> (Inr False, [NoMatchFound]))
             else (Inr True, []))
      else (Inr False, []))"

definition logStructure :: "string \<Rightarrow> 'v jsMap \<Rightarrow> 'v event list" where
  "logStructure aStructureName structs =
     (case mapData structs aStructureName of
        None \<Rightarrow> []
      | Some v \<Rightarrow> [StructureLogged aStructureName v])"

text \<open>
  What \<open>traceParseOf\<close> is given from outside this module: the regular expression engine,
  the file system, the registry's \<open>loadGrammar\<close> (the tokenizer of a base scope, \<open>None\<close>
  for \<open>null\<close>), \<open>vsctm.INITIAL\<close>, and \<open>ScopeActions.getScopesWithActions()\<close>.
\<close>

record ('rs, 'v) world =
  regex :: regexEngine
  files :: loader
  loadGrammar :: "string \<Rightarrow> (string \<Rightarrow> 'rs \<Rightarrow> token list \<times> 'rs) option"
  INITIAL :: 'rs
  getScopesWithActions :: "string \<Rightarrow> 'v scopeAction list option"

text \<open>\<open>scopes2run\<close> is an object from scope names to arrays of matched texts.\<close>

type_synonym scopes2run = "(string \<times> string list) list"

definition pushToken :: "string \<Rightarrow> string \<Rightarrow> scopes2run \<Rightarrow> scopes2run" where
  "pushToken aScope text s2r =
     AList.update aScope ((case map_of s2r aScope of None \<Rightarrow> [] | Some ts \<Rightarrow> ts) @ [text]) s2r"

text \<open>
  The loops of \<open>traceParseOf\<close>. Nothing in it catches an exception, so that a call of
  \<open>traceObj\<close> that throws ends every loop around it: each loop returns the exception, if
  there is one, with the events up to it and the state it leaves.
\<close>

text \<open>The loop over \<open>aToken.scopes\<close>.\<close>

fun scopesLoop ::
  "('rs, 'v) world \<Rightarrow> config \<Rightarrow> bool \<Rightarrow> string \<Rightarrow> string list \<Rightarrow> scopes2run
   \<Rightarrow> js_error option \<times> 'v event list \<times> scopes2run" where
  "scopesLoop W cfg showLine text [] s2r = (None, [], s2r)"
| "scopesLoop W cfg showLine text (aScope # rest) s2r =
     (case traceObj (regex W) (trace cfg) (traceScopes cfg) aScope of
        (Inl err, e1) \<Rightarrow> (Some err, e1, s2r)
      | (Inr showScope, e1) \<Rightarrow>
          (let e2 = (if showLine \<and> showScope then [ScopeShown aScope] else []);
               s2r1 = (if getScopesWithActions W aScope \<noteq> None
                       then pushToken aScope text s2r else s2r);
               (err, e3, s2r2) = scopesLoop W cfg showLine text rest s2r1
           in (err, e1 @ e2 @ e3, s2r2)))"

text \<open>The loop over \<open>lineTokens.tokens\<close>.\<close>

fun tokensLoop ::
  "('rs, 'v) world \<Rightarrow> config \<Rightarrow> bool \<Rightarrow> string \<Rightarrow> token list \<Rightarrow> scopes2run
   \<Rightarrow> js_error option \<times> 'v event list \<times> scopes2run" where
  "tokensLoop W cfg showLine aLine [] s2r = (None, [], s2r)"
| "tokensLoop W cfg showLine aLine (aToken # rest) s2r =
     (let text = substring aLine (startIndex aToken) (endIndex aToken);
          e1 = (if showLine then [TokenShown (startIndex aToken) (endIndex aToken) text] else []);
          (err2, e2, s2r1) = scopesLoop W cfg showLine text (scopes aToken) s2r
      in case err2 of
           Some err \<Rightarrow> (Some err, e1 @ e2, s2r1)
         | None \<Rightarrow>
             (let (err3, e3, s2r2) = tokensLoop W cfg showLine aLine rest s2r1
              in (err3, e1 @ e2 @ e3, s2r2)))"

text \<open>The loop over the actions of one scope.\<close>

fun actionsLoop :: "'v scopeAction list \<Rightarrow> invocation \<Rightarrow> 'v jsMap \<Rightarrow> 'v event list \<times> 'v jsMap" where
  "actionsLoop [] args structs = ([], structs)"
| "actionsLoop (anAction # rest) args structs =
     (let structs1 = run anAction args structs;
          (e, structs2) = actionsLoop rest args structs1
      in (Invoked (actionName anAction) args # e, structs2))"

text \<open>The loop over \<open>structureNames\<close>.\<close>

fun structuresLoop ::
  "('rs, 'v) world \<Rightarrow> config \<Rightarrow> string list \<Rightarrow> 'v jsMap \<Rightarrow> js_error option \<times> 'v event list" where
  "structuresLoop W cfg [] structs = (None, [])"
| "structuresLoop W cfg (aStructureName # rest) structs =
     (case traceObj (regex W) (trace cfg) (traceStructures cfg) aStructureName of
        (Inl err, e1) \<Rightarrow> (Some err, e1)
      | (Inr showStructure, e1) \<Rightarrow>
          (let e2 = (if showStructure then logStructure aStructureName structs else []);
               (err, e3) = structuresLoop W cfg rest structs
           in (err, e1 @ e2 @ e3)))"

text \<open>
  The loop over \<open>Object.entries(scopes2run)\<close>. Every key of \<open>scopes2run\<close> has actions; the
  source would fail on one that has none, which the model reads as no action.
\<close>

fun runLoop ::
  "('rs, 'v) world \<Rightarrow> config \<Rightarrow> string list \<Rightarrow> bool \<Rightarrow> nat \<Rightarrow> document \<Rightarrow> scopes2run
   \<Rightarrow> 'v jsMap \<Rightarrow> js_error option \<times> 'v event list \<times> 'v jsMap" where
  "runLoop W cfg structureNames showLine n aDoc [] structs = (None, [], structs)"
| "runLoop W cfg structureNames showLine n aDoc ((aScope, someTokens) # rest) structs =
     (case traceObj (regex W) (trace cfg) (traceScopes cfg) aScope of
        (Inl err, e1) \<Rightarrow> (Some err, e1, structs)
      | (Inr showScope, e1) \<Rightarrow>
     (case traceObj (regex W) (trace cfg) (traceActions cfg) aScope of
        (Inl err, e2) \<Rightarrow> (Some err, e1 @ e2, structs)
      | (Inr showAction, e2) \<Rightarrow>
          (let shown = (showLine \<and> showScope \<and> showAction);
               e3 = (if shown
                     then ActionsEnter #
                       (if showLine \<and> showScope then [ScopeTokensShown aScope someTokens] else [])
                     else []);
               (e4, structs1) =
                 actionsLoop (case getScopesWithActions W aScope of None \<Rightarrow> [] | Some as \<Rightarrow> as)
                   \<lparr>scope = aScope, matched = someTokens, lineNum = n, doc = aDoc,
                    traceFlag = trace cfg\<rparr> structs;
               (err5, e5) = (if shown then structuresLoop W cfg structureNames structs1
                             else (None, []))
           in case err5 of
                Some err \<Rightarrow> (Some err, e1 @ e2 @ e3 @ e4 @ e5, structs1)
              | None \<Rightarrow>
                  (let e6 = (if shown then [ActionsExit] else []);
                       (err7, e7, structs2) =
                         runLoop W cfg structureNames showLine n aDoc rest structs1
                   in (err7, e1 @ e2 @ e3 @ e4 @ e5 @ e6 @ e7, structs2)))))"

text \<open>The loop over \<open>aDoc.docLines\<close>; \<open>n\<close> is \<open>lineNum\<close> after its increment.\<close>

fun linesLoop ::
  "('rs, 'v) world \<Rightarrow> config \<Rightarrow> string list \<Rightarrow> (string \<Rightarrow> 'rs \<Rightarrow> token list \<times> 'rs) \<Rightarrow> document
   \<Rightarrow> nat \<Rightarrow> string list \<Rightarrow> 'rs \<Rightarrow> 'v jsMap \<Rightarrow> js_error option \<times> 'v event list \<times> 'v jsMap" where
  "linesLoop W cfg structureNames tokenizeLine aDoc n [] ruleStack structs = (None, [], structs)"
| "linesLoop W cfg structureNames tokenizeLine aDoc n (aLine # rest) ruleStack structs =
     (let (tokens, ruleStack1) = tokenizeLine aLine ruleStack
      in case traceObj (regex W) (trace cfg) (traceLines cfg) aLine of
           (Inl err, e1) \<Rightarrow> (Some err, e1, structs)
         | (Inr showLine, e1) \<Rightarrow>
             (let e2 = (if showLine then [LineShown n aLine] else []);
                  (err3, e3, s2r) = tokensLoop W cfg showLine aLine tokens []
              in case err3 of
                   Some err \<Rightarrow> (Some err, e1 @ e2 @ e3, structs)
                 | None \<Rightarrow>
                     (let (err4, e4, structs1) =
                            runLoop W cfg structureNames showLine n aDoc s2r structs
                      in case err4 of
                           Some err \<Rightarrow> (Some err, e1 @ e2 @ e3 @ e4, structs1)
                         | None \<Rightarrow>
                             (let (err5, e5, structs2) =
                                    linesLoop W cfg structureNames tokenizeLine aDoc (Suc n) rest
                                      ruleStack1 structs1
                              in (err5, e1 @ e2 @ e3 @ e4 @ e5, structs2)))))"

text \<open>
  \<open>traceParseOf\<close>: the error that rejects the promise (the file cannot be read, a regular
  expression does not compile, or the registry has no grammar and \<open>aGrammar.tokenizeLine\<close>
  is called on \<open>null\<close>), the events, the document cache and the structure store.
\<close>

datatype trace_error = DocumentUnreadable | GrammarIsNull | Thrown js_error

definition traceParseOf ::
  "('rs, 'v) world \<Rightarrow> grammars \<Rightarrow> string \<Rightarrow> config \<Rightarrow> documentCache \<Rightarrow> 'v jsMap
   \<Rightarrow> trace_error option \<times> 'v event list \<times> documentCache \<times> 'v jsMap" where
  "traceParseOf W G aDocPath cfg documents structs =
     (case loadFromFile (files W) aDocPath documents of
        (None, documents1) \<Rightarrow> (Some DocumentUnreadable, [], documents1, structs)
      | (Some aDoc, documents1) \<Rightarrow>
          (case chooseBaseScope (regex W) G (filePath aDoc) (hd (docLines aDoc)) of
             Inl err \<Rightarrow> (Some (Thrown err), [], documents1, structs)
           | Inr aBaseScope \<Rightarrow>
               if \<not> truthy aBaseScope then
                 (None,
                  [Warned ''WARNING: Could not find the base scope for the document'',
                   Warned (''  '' @ docName aDoc)],
                  documents1, structs)
               else
                 (let e0 = [Traced ''--TRACING--'',
                            Traced (aDocPath @ '' (using '' @ the aBaseScope @ '')''),
                            Traced ''-----------''];
                      structureNames = getStructureNames structs
                  in case loadGrammar W (the aBaseScope) of
                       None \<Rightarrow> (Some GrammarIsNull, e0, documents1, structs)
                     | Some tokenizeLine \<Rightarrow>
                         (let (err, e, structs1) =
                            linesLoop W cfg structureNames tokenizeLine aDoc 0 (docLines aDoc)
                              (INITIAL W) structs
                          in (map_option Thrown err, e0 @ e, documents1, structs1)))))"

text \<open>
  Every regular expression of the four filters of a configuration compiles.
\<close>

definition filtersOf :: "config \<Rightarrow> string list" where
  "filtersOf cfg =
     excludeRx (traceLines cfg) @ includeRx (traceLines cfg)
     @ excludeRx (traceScopes cfg) @ includeRx (traceScopes cfg)
     @ excludeRx (traceActions cfg) @ includeRx (traceActions cfg)
     @ excludeRx (traceStructures cfg) @ includeRx (traceStructures cfg)"

definition filtersCompile :: "regexEngine \<Rightarrow> config \<Rightarrow> bool" where
  "filtersCompile E cfg \<longleftrightarrow> list_all (compiles E) (filtersOf cfg)"

text \<open>The calls of actions among the events, in order.\<close>

fun invocations :: "'v event list \<Rightarrow> (string \<times> invocation) list" where
  "invocations [] = []"
| "invocations (Invoked a args # es) = (a, args) # invocations es"
| "invocations (e # es) = invocations es"

fun isStructureLogged :: "'v event \<Rightarrow> bool" where
  "isStructureLogged (StructureLogged n v) = True"
| "isStructureLogged e = False"

section \<open>Running the tool\<close>

text \<open>
  \<open>runTMGTool\<close> awaits three calls of \<open>ScopeActions.runActionsStartingWith\<close>, one after the
  other. What can be observed of a run is the sequence of the starts and the settlements
  of the actions. An awaited call contributes its events before the next statement runs;
  when its promise is rejected, \<open>await\<close> throws and the statements after it do not run.
  \<open>process.exit(0)\<close> ends the process before any action.
\<close>

datatype phase_event = Started string | Settled string

fun actionOf :: "phase_event \<Rightarrow> string" where
  "actionOf (Started a) = a"
| "actionOf (Settled a) = a"

datatype tool_outcome = ProcessExit | Fulfilled "phase_event list" | Rejected "phase_event list"

fun eventsOf :: "tool_outcome \<Rightarrow> phase_event list" where
  "eventsOf ProcessExit = []"
| "eventsOf (Fulfilled tr) = tr"
| "eventsOf (Rejected tr) = tr"

text \<open>
  The callee is a parameter of \<open>runTMGTool\<close>: given the phase prefix, the namespace, the
  input documents and the parallel flag, it returns the events of the call and whether its
  promise was fulfilled.
\<close>

definition runTMGTool ::
  "(string \<Rightarrow> string \<Rightarrow> string list \<Rightarrow> bool \<Rightarrow> phase_event list \<times> bool) \<Rightarrow> config \<Rightarrow> tool_outcome" where
  "runTMGTool runActionsStartingWith cfg =
     (if length (initialFiles cfg) < 1 then ProcessExit
      else
        (case runActionsStartingWith ''initialize'' ''lpic'' [] (parallel cfg) of
           (t1, ok1) \<Rightarrow>
             if \<not> ok1 then Rejected t1
             else
               (case runActionsStartingWith ''run'' ''lpic'' (initialFiles cfg) (parallel cfg) of
                  (t2, ok2) \<Rightarrow>
                    if \<not> ok2 then Rejected (t1 @ t2)
                    else
                      (case runActionsStartingWith ''finalize'' ''lpic'' [] (parallel cfg) of
                         (t3, ok3) \<Rightarrow>
                           if \<not> ok3 then Rejected (t1 @ t2 @ t3)
                           else Fulfilled (t1 @ t2 @ t3)))))"

text \<open>
  Modelled from the spec: \<open>ScopeActions.runActionsStartingWith\<close>, whose source
  (\<open>scopeActions.js\<close>) is missing. The specification says: it resolves all registered
  actions whose name starts with the given phase prefix, then executes them; if \<open>parallel\<close>
  is set, all resolved actions of the phase are started (in registration order) and the
  phase is not complete until every one has finished, in whatever order; otherwise they
  run strictly in registration order. The registry is the list of the registered names in
  registration order. The order in which the concurrent actions finish is the
  scheduler's choice: a list of numbers, each picking one of the actions still running.
\<close>

fun completionOrder :: "nat list \<Rightarrow> 'a list \<Rightarrow> 'a list" where
  "completionOrder ks [] = []"
| "completionOrder [] xs = xs"
| "completionOrder (k # ks) xs =
     xs ! (k mod length xs)
     # completionOrder ks (take (k mod length xs) xs @ drop (Suc (k mod length xs)) xs)"

definition resolveActions :: "string list \<Rightarrow> string \<Rightarrow> string list" where
  "resolveActions registry phasePrefix = filter (prefix phasePrefix) registry"

definition runActionsStartingWith ::
  "string list \<Rightarrow> (string \<Rightarrow> nat list) \<Rightarrow> string \<Rightarrow> string \<Rightarrow> string list \<Rightarrow> bool
   \<Rightarrow> phase_event list \<times> bool" where
  "runActionsStartingWith registry scheduler phasePrefix namespace inputDocuments inParallel =
     (let actions = resolveActions registry phasePrefix
      in if inParallel
         then (map Started actions @ map Settled (completionOrder (scheduler phasePrefix) actions), True)
         else (concat (map (\<lambda>a. [Started a, Settled a]) actions), True))"

text \<open>
  Modelled from the spec: what one call of \<open>ScopeActions.runActionsStartingWith\<close>, whose
  source is missing, promises whatever its handlers do. It executes the registered actions
  whose name starts with the phase prefix, so that every event of the call belongs to
  such an action; and the phase is not complete until every one of them has finished, so
  that a call whose promise is fulfilled has started and settled every registered action
  of the phase. The specification leaves open what a call does when a handler fails:
  the contract says nothing of a call whose promise is rejected beyond whose events it has.
\<close>

definition phaseContract ::
  "string list \<Rightarrow> (string \<Rightarrow> string \<Rightarrow> string list \<Rightarrow> bool \<Rightarrow> phase_event list \<times> bool) \<Rightarrow> bool" where
  "phaseContract registry callee \<longleftrightarrow>
     (\<forall>p ns docs par.
        (\<forall>e \<in> set (fst (callee p ns docs par)). prefix p (actionOf e))
        \<and> (snd (callee p ns docs par) \<longrightarrow>
             (\<forall>a \<in> set registry. prefix p a \<longrightarrow>
                Started a \<in> set (fst (callee p ns docs par))
                \<and> Settled a \<in> set (fst (callee p ns docs par)))))"

text \<open>
  The barrier between two phases, on a sequence of events: when an action of the later
  phase starts, every registered action of the earlier phase has settled. That every
  registered action of a phase has started and settled in a sequence of events. And the
  number of the phase an event belongs to.
\<close>

definition settledBefore :: "string list \<Rightarrow> string \<Rightarrow> string \<Rightarrow> phase_event list \<Rightarrow> bool" where
  "settledBefore registry earlier later tr \<longleftrightarrow>
     (\<forall>pre post b. tr = pre @ Started b # post \<and> prefix later b \<longrightarrow>
        (\<forall>a \<in> set registry. prefix earlier a \<longrightarrow> Settled a \<in> set pre))"

definition startedAndSettled :: "string list \<Rightarrow> string \<Rightarrow> phase_event list \<Rightarrow> bool" where
  "startedAndSettled registry phasePrefix tr \<longleftrightarrow>
     (\<forall>a \<in> set registry. prefix phasePrefix a \<longrightarrow> Started a \<in> set tr \<and> Settled a \<in> set tr)"

fun phaseNumber :: "phase_event \<Rightarrow> nat" where
  "phaseNumber e =
     (if prefix ''initialize'' (actionOf e) then 0
      else if prefix ''run'' (actionOf e) then 1 else 2)"

section \<open>Example inputs\<close>

definition exGrammar :: "string \<Rightarrow> string \<Rightarrow> rule" where
  "exGrammar s m = Rule None (Some s) None None (Some []) None None None None None None [(''match'', m)]"

definition exLoader :: loader where
  "exLoader = \<lparr>normalizePath = (\<lambda>p. ''/w/'' @ p),
     readFile = (\<lambda>p. if p = ''/w/a.json'' then Some ''A'' else if p = ''/w/b.json'' then Some ''B'' else None),
     parseJSON = (\<lambda>s. if s = ''A'' then Some (exGrammar ''source.t'' ''a'')
                       else if s = ''B'' then Some (exGrammar ''source.t'' ''b'') else None)\<rparr>"

definition exStore :: grammars where
  "exStore = \<lparr>scope2grammar = [(''source.t'', exGrammar ''source.t'' ''pruned'')],
     originalScope2grammar = [(''source.t'', exGrammar ''source.t'' ''a'')],
     loadedGrammars = {''/w/a.json''}\<rparr>"

text \<open>Rule objects with one property, and a grammar object.\<close>

definition ruleNamed :: "string \<Rightarrow> rule" where
  "ruleNamed n = Rule (Some n) None None None None None None None None None None []"

definition ruleIncluding :: "string \<Rightarrow> rule" where
  "ruleIncluding i = Rule None None None (Some i) None None None None None None None []"

definition grammarOf ::
  "string \<Rightarrow> rule list option \<Rightarrow> (string \<times> rule) list option \<Rightarrow> string list option
   \<Rightarrow> string option \<Rightarrow> rule" where
  "grammarOf s pats repo exts flm = Rule None (Some s) None None pats repo None None None exts flm []"

text \<open>
  Two grammars: one for the file type \<open>.sh\<close> with no first-line pattern, registered
  first, and one with the first-line pattern \<open>^#!\<close>. The example engine knows that
  pattern; any other pattern matches only the string equal to it. Two strings are not
  regular expressions of JavaScript and do not compile: \<open>(?i)^#!/bin/sh\<close>, a pattern of
  Oniguruma with an inline flag, and \<open>(\<close>, a group that is not closed.
\<close>

definition exMatches :: "string \<Rightarrow> string \<Rightarrow> bool" where
  "exMatches p s = (if p = ''^#!'' then prefix ''#!'' s else p = s)"

definition exEngine :: regexEngine where
  "exEngine = \<lparr>compiles = (\<lambda>p. p \<noteq> ''(?i)^#!/bin/sh'' \<and> p \<noteq> ''(''), matchesIn = exMatches\<rparr>"

definition exSelectorStore :: grammars where
  "exSelectorStore =
     \<lparr>scope2grammar =
        [(''source.ext'', grammarOf ''source.ext'' (Some []) None (Some [''.sh'']) None),
         (''source.shebang'', grammarOf ''source.shebang'' (Some []) None (Some [''.bash'']) (Some ''^#!''))],
      originalScope2grammar = [], loadedGrammars = {}\<rparr>"

text \<open>
  A grammar written for Oniguruma: its first-line pattern \<open>(?i)^#!/bin/sh\<close> is not a regular
  expression of JavaScript; its file type is \<open>.sh\<close>.
\<close>

definition exOnigGrammar :: rule where
  "exOnigGrammar = grammarOf ''g.onig'' (Some []) None (Some [''.sh'']) (Some ''(?i)^#!/bin/sh'')"

definition exOnigStore :: grammars where
  "exOnigStore =
     \<lparr>scope2grammar = [(''g.onig'', exOnigGrammar)],
      originalScope2grammar = [], loadedGrammars = {}\<rparr>"

text \<open>
  A world with one file \<open>/w/doc.sh\<close> of two lines, a tokenizer that makes each line one
  token of scope \<open>kw\<close> under \<open>source.ext\<close>, and one action on \<open>kw\<close> that registers a structure
  named after the line number.
\<close>

definition exFiles :: loader where
  "exFiles = \<lparr>normalizePath = (\<lambda>p. ''/w/'' @ p),
     readFile = (\<lambda>p. if p = ''/w/doc.sh'' then Some (''ab'' @ [CHR 0x0A] @ ''c'') else None),
     parseJSON = (\<lambda>s. None)\<rparr>"

definition exAction :: "nat scopeAction" where
  "exAction = \<lparr>actionName = ''run.kw'',
     run = (\<lambda>args structs. snd (newStructure (matched args ! 0) (lineNum args) structs))\<rparr>"

definition exWorld :: "(nat, nat) world" where
  "exWorld = \<lparr>regex = exEngine, files = exFiles,
     loadGrammar = (\<lambda>s. if s = ''source.ext''
        then Some (\<lambda>aLine rs. ([\<lparr>startIndex = 0, endIndex = length aLine, scopes = [''source.ext'', ''kw'']\<rparr>], Suc rs))
        else None),
     INITIAL = 0,
     getScopesWithActions = (\<lambda>s. if s = ''kw'' then Some [exAction] else None)\<rparr>"

definition exConfig :: "traceOpts \<Rightarrow> config" where
  "exConfig scopesFilter =
     \<lparr>trace = True,
      traceLines = \<lparr>excludeRx = [], includeRx = []\<rparr>,
      traceScopes = scopesFilter,
      traceActions = \<lparr>excludeRx = [], includeRx = []\<rparr>,
      traceStructures = \<lparr>excludeRx = [], includeRx = []\<rparr>,
      initialFiles = [''doc.sh''], parallel = False\<rparr>"

text \<open>The same configuration with a filter on the lines.\<close>

definition exLinesConfig :: "traceOpts \<Rightarrow> config" where
  "exLinesConfig linesFilter = (exConfig \<lparr>excludeRx = [], includeRx = []\<rparr>)\<lparr>traceLines := linesFilter\<rparr>"

text \<open>
  Grammars for the pruner: one with two named rules; one whose root pattern includes
  \<open>#a\<close>, where \<open>#a\<close> includes \<open>#b\<close> and \<open>#b\<close> includes \<open>#a\<close>; one with the same repository
  that no root pattern reaches; and one with no \<open>patterns\<close> at all.
\<close>

definition storeOf :: "(string \<times> rule) list \<Rightarrow> grammars" where
  "storeOf gs = \<lparr>scope2grammar = gs, originalScope2grammar = gs, loadedGrammars = {}\<rparr>"

definition exKeywords :: rule where
  "exKeywords = grammarOf ''t'' (Some [ruleNamed ''kw.a'', ruleNamed ''kw.b'']) None None None"

definition exCycleRepo :: "(string \<times> rule) list" where
  "exCycleRepo = [(''a'', ruleIncluding ''#b''), (''b'', ruleIncluding ''#a'')]"

definition exCyclic :: rule where
  "exCyclic = grammarOf ''t'' (Some [ruleIncluding ''#a'']) (Some exCycleRepo) None None"

definition exUnreached :: rule where
  "exUnreached = grammarOf ''t'' (Some [ruleNamed ''kw.a'']) (Some exCycleRepo) None None"

definition exNoPatterns :: rule where
  "exNoPatterns = grammarOf ''t'' None None None None"

text \<open>The state in which \<open>pruneGrammars\<close> starts its loop on a single grammar \<open>t\<close>.\<close>

definition exPruning :: "rule \<Rightarrow> (string \<rightharpoonup> bool) \<Rightarrow> pruning" where
  "exPruning g keepSet =
     \<lparr>heap = snd (copyAll [(''t'', g)] []), s2g = fst (copyAll [(''t'', g)] []),
      scopes2keep = keepSet, knownBaseScopes = {}\<rparr>"

text \<open>
  The working copy of the cyclic grammar: the two repository rules, the grammar object, and
  the state of the pruner while it walks the grammar.
\<close>

definition cycA :: hrule where
  "cycA = HRule (ruleIncluding ''#b'') None"

definition cycB :: hrule where
  "cycB = HRule (ruleIncluding ''#a'') None"

definition cycGrammar :: hgrammar where
  "cycGrammar = \<lparr>gprops = grammarOf ''t'' None None None None, gpatternsRef = Some 0,
     grepository = Some [(''a'', cycA), (''b'', cycB)]\<rparr>"

definition cycState :: "string set \<Rightarrow> pruning" where
  "cycState known = \<lparr>heap = [[cycB]], s2g = [(''t'', cycGrammar)], scopes2keep = Map.empty,
     knownBaseScopes = known\<rparr>"

text \<open>
  A store after an earlier pruning: the original grammar has two named rules, the working
  copy has lost the second.
\<close>

definition exPrunedStore :: grammars where
  "exPrunedStore =
     \<lparr>scope2grammar = [(''t'', grammarOf ''t'' (Some [ruleNamed ''kw.a'']) None None None)],
      originalScope2grammar = [(''t'', exKeywords)], loadedGrammars = {}\<rparr>"

text \<open>
  Four registered actions, two of them of the first phase, run in parallel; the scheduler
  lets the second one started finish first.
\<close>

definition exRegistry :: "string list" where
  "exRegistry = [''run.b'', ''initialize.a'', ''finalize.c'', ''initialize.d'']"

definition exScheduler :: "string \<Rightarrow> nat list" where
  "exScheduler p = [1]"

definition exParallelConfig :: config where
  "exParallelConfig = (exConfig \<lparr>excludeRx = [], includeRx = []\<rparr>)\<lparr>parallel := True\<rparr>"

text \<open>
  A callee whose call for the run phase starts \<open>run.b\<close> and is rejected; its other calls
  are those of the model.
\<close>

definition exRejecting :: "string \<Rightarrow> string \<Rightarrow> string list \<Rightarrow> bool \<Rightarrow> phase_event list \<times> bool" where
  "exRejecting p ns docs par =
     (if p = ''run'' then ([Started ''run.b'', Settled ''run.b''], False)
      else runActionsStartingWith exRegistry exScheduler p ns docs par)"

section \<open>Loading: properties\<close>

lemma rebuild_skip:
  "fst p \<notin> fst ` set os \<Longrightarrow> rebuild (p # ws) os = p # rebuild ws os"
  unfolding rebuild_def
  by (induction os arbitrary: ws) (auto simp: deepcopy_def)

lemma rebuild_same_keys:
  "distinct (map fst os) \<Longrightarrow> map fst ws = map fst os \<Longrightarrow> rebuild ws os = os"
proof (induction os arbitrary: ws)
  case Nil
  then show ?case by (simp add: rebuild_def)
next
  case (Cons o1 os)
  then obtain w1 ws' where ws: "ws = w1 # ws'" "fst w1 = fst o1" "map fst ws' = map fst os"
    by (cases ws) auto
  have "rebuild ws (o1 # os) = rebuild (o1 # ws') os"
    using ws by (cases o1; cases w1) (simp add: rebuild_def deepcopy_def)
  also have "\<dots> = o1 # rebuild ws' os"
    using Cons.prems(1) by (intro rebuild_skip) auto
  also have "\<dots> = o1 # os"
    using Cons.IH [of ws'] Cons.prems(1) ws by simp
  finally show ?case .
qed

lemma update_fresh: "k \<notin> fst ` set al \<Longrightarrow> AList.update k v al = al @ [(k, v)]"
  by (induction al) auto

lemma rebuild_snoc: "rebuild ws (os @ [(k, g)]) = AList.update k g (rebuild ws os)"
  by (simp add: rebuild_def deepcopy_def)

lemma register_inv:
  assumes "store_inv G"
  shows "scope2grammar (snd (register aGrammar G)) = originalScope2grammar (snd (register aGrammar G))
    \<and> store_inv (snd (register aGrammar G))"
proof -
  let ?o = "originalScope2grammar G"
  let ?w = "scope2grammar G"
  from assms have d: "distinct (map fst ?o)" and k: "map fst ?w = map fst ?o"
    by (simp_all add: store_inv_def)
  consider (none) "\<not> truthy (scopeName aGrammar)"
    | (old) s where "scopeName aGrammar = Some s" "s \<noteq> []" "s \<in> fst ` set ?o"
    | (new) s where "scopeName aGrammar = Some s" "s \<noteq> []" "s \<notin> fst ` set ?o"
    by (cases "scopeName aGrammar") auto
  then show ?thesis
  proof cases
    case none
    then show ?thesis
      using d k assms by (simp add: register_def rebuild_same_keys store_inv_def)
  next
    case old
    then have m: "map_of ?o s \<noteq> None"
      by (simp add: map_of_eq_None_iff)
    have ks: "map fst (AList.update s aGrammar ?o) = map fst ?o"
      using old by (simp add: update_keys)
    have "rebuild ?w (AList.update s aGrammar ?o) = AList.update s aGrammar ?o"
      using d k ks by (intro rebuild_same_keys) (simp_all add: distinct_update)
    then show ?thesis
      using old m d by (simp add: register_def store_inv_def distinct_update)
  next
    case new
    then have m: "map_of ?o s = None"
      by (simp add: map_of_eq_None_iff)
    have u: "AList.update s aGrammar ?o = ?o @ [(s, aGrammar)]"
      using new by (simp add: update_fresh)
    have "rebuild ?w (?o @ [(s, aGrammar)]) = AList.update s aGrammar (rebuild ?w ?o)"
      by (rule rebuild_snoc)
    also have "\<dots> = ?o @ [(s, aGrammar)]"
      using d k u by (simp add: rebuild_same_keys)
    finally show ?thesis
      using new m d u by (simp add: register_def store_inv_def distinct_update)
  qed
qed

lemma register_loaded: "loadedGrammars (snd (register aGrammar G)) = loadedGrammars G"
  by (simp add: register_def Let_def case_prod_beta)

lemma loadGrammarFrom_cases:
  "snd (snd (loadGrammarFrom env p G)) = G
   \<or> snd (snd (loadGrammarFrom env p G)) = G\<lparr>loadedGrammars := insert (normalizePath env p) (loadedGrammars G)\<rparr>
   \<or> (\<exists>aGrammar. snd (snd (loadGrammarFrom env p G)) =
         snd (register aGrammar (G\<lparr>loadedGrammars := insert (normalizePath env p) (loadedGrammars G)\<rparr>)))"
  by (auto simp: loadGrammarFrom_def Let_def case_prod_beta split: option.splits)

lemma store_inv_loaded: "store_inv (G\<lparr>loadedGrammars := L\<rparr>) = store_inv G"
  by (simp add: store_inv_def)

lemma loadGrammarFrom_inv: "store_inv G \<Longrightarrow> store_inv (snd (snd (loadGrammarFrom env p G)))"
  using loadGrammarFrom_cases [of env p G] register_inv store_inv_loaded
  by metis

lemma loadGrammarFrom_success:
  assumes "suffix ''.json'' p" "p \<notin> loadedGrammars G" "normalizePath env p \<notin> loadedGrammars G"
    "readFile env (normalizePath env p) = Some str" "parseJSON env str = Some aGrammar"
  shows "loadGrammarFrom env p G =
    (None, Debug (''loading grammar from '' @ normalizePath env p)
            # fst (register aGrammar (G\<lparr>loadedGrammars := insert (normalizePath env p) (loadedGrammars G)\<rparr>)),
     snd (register aGrammar (G\<lparr>loadedGrammars := insert (normalizePath env p) (loadedGrammars G)\<rparr>)))"
  using assms by (simp add: loadGrammarFrom_def Let_def case_prod_beta)

text \<open>
  Claim C6. Every load that reads and parses its file returns without an error and
  rebuilds the working map: it is the list of deep copies of the originals, whatever an
  earlier pruning had left in it. When the grammar's \<open>scopeName\<close> is already a key of the
  original store, the warning is logged and the grammar replaces the previous
  definition under that key.
\<close>

theorem loadGrammarFrom_overwrites_and_rebuilds:
  assumes "store_inv G"
    and "suffix ''.json'' p" and "p \<notin> loadedGrammars G"
    and "normalizePath env p \<notin> loadedGrammars G"
    and "readFile env (normalizePath env p) = Some str"
    and "parseJSON env str = Some aGrammar"
  shows "fst (loadGrammarFrom env p G) = None
    \<and> scope2grammar (snd (snd (loadGrammarFrom env p G)))
        = map (\<lambda>(aScope, g). (aScope, deepcopy g)) (originalScope2grammar (snd (snd (loadGrammarFrom env p G))))
    \<and> (\<forall>s. scopeName aGrammar = Some s \<and> s \<noteq> [] \<and> s \<in> fst ` set (originalScope2grammar G) \<longrightarrow>
          Warn (''WARNING: you are over-writing an existing '' @ s @ '' grammar'')
            \<in> set (fst (snd (loadGrammarFrom env p G)))
          \<and> originalScope2grammar (snd (snd (loadGrammarFrom env p G)))
            = AList.update s aGrammar (originalScope2grammar G)
          \<and> map fst (originalScope2grammar (snd (snd (loadGrammarFrom env p G))))
            = map fst (originalScope2grammar G)
          \<and> map_of (originalScope2grammar (snd (snd (loadGrammarFrom env p G)))) s = Some aGrammar)"
proof -
  let ?G1 = "G\<lparr>loadedGrammars := insert (normalizePath env p) (loadedGrammars G)\<rparr>"
  have l: "loadGrammarFrom env p G =
    (None, Debug (''loading grammar from '' @ normalizePath env p) # fst (register aGrammar ?G1),
     snd (register aGrammar ?G1))"
    using assms(2-6) by (rule loadGrammarFrom_success)
  have i: "store_inv ?G1"
    using assms(1) by (simp add: store_inv_loaded)
  have c: "scope2grammar (snd (register aGrammar ?G1)) = originalScope2grammar (snd (register aGrammar ?G1))"
    using register_inv [OF i] by simp
  have d: "map (\<lambda>(aScope, g). (aScope, deepcopy g)) xs = xs" for xs :: "(string \<times> rule) list"
    by (induction xs) (auto simp: deepcopy_def)
  have o: "fst (register aGrammar ?G1) = [Warn (''WARNING: you are over-writing an existing '' @ s @ '' grammar'')]
      \<and> originalScope2grammar (snd (register aGrammar ?G1)) = AList.update s aGrammar (originalScope2grammar G)
      \<and> map fst (AList.update s aGrammar (originalScope2grammar G)) = map fst (originalScope2grammar G)"
    if "scopeName aGrammar = Some s" "s \<noteq> []" "s \<in> fst ` set (originalScope2grammar G)" for s
  proof -
    have "map_of (originalScope2grammar G) s \<noteq> None"
      using that(3) by (simp add: map_of_eq_None_iff)
    then show ?thesis
      using that by (simp add: register_def update_keys)
  qed
  show ?thesis
    using l c o by (simp add: d update_conv')
qed

theorem loadGrammarFrom_overwrites_and_rebuilds_witness:
  "store_inv exStore
   \<and> fst (loadGrammarFrom exLoader ''b.json'' exStore) = None
   \<and> fst (snd (loadGrammarFrom exLoader ''b.json'' exStore))
      = [Debug ''loading grammar from /w/b.json'',
         Warn ''WARNING: you are over-writing an existing source.t grammar'']
   \<and> scope2grammar (snd (snd (loadGrammarFrom exLoader ''b.json'' exStore)))
      = [(''source.t'', exGrammar ''source.t'' ''b'')]"
proof -
  have i: "store_inv exStore"
    by (simp add: store_inv_def exStore_def)
  have s: "suffix ''.json'' ''b.json''"
    by (simp add: suffix_to_prefix)
  have n: "''b.json'' \<notin> loadedGrammars exStore"
    "normalizePath exLoader ''b.json'' \<notin> loadedGrammars exStore"
    by (simp_all add: exStore_def exLoader_def)
  have r: "readFile exLoader (normalizePath exLoader ''b.json'') = Some ''B''"
    by (simp add: exLoader_def)
  have q: "parseJSON exLoader ''B'' = Some (exGrammar ''source.t'' ''b'')"
    by (simp add: exLoader_def)
  have e: "fst (snd (loadGrammarFrom exLoader ''b.json'' exStore))
      = [Debug ''loading grammar from /w/b.json'',
         Warn ''WARNING: you are over-writing an existing source.t grammar'']"
    "scope2grammar (snd (snd (loadGrammarFrom exLoader ''b.json'' exStore)))
      = [(''source.t'', exGrammar ''source.t'' ''b'')]"
    by (simp_all add: exStore_def exLoader_def exGrammar_def loadGrammarFrom_def register_def
        rebuild_def deepcopy_def Let_def suffix_to_prefix)
  note th = loadGrammarFrom_overwrites_and_rebuilds [OF i s n r q]
  show ?thesis
    using th i e by blast
qed

text \<open>
  Claim C9. A call of \<open>loadGrammarFrom\<close> with a path that is in the loaded-path set, as it
  is given or once normalised, or with a path that does not end in \<open>.json\<close>, returns without
  an error and leaves the store as it was; and a second call with the same path, after any
  first call, leaves the store as the first call left it.
\<close>

theorem loadGrammarFrom_idempotent:
  "(aGrammarPath \<in> loadedGrammars G \<or> normalizePath env aGrammarPath \<in> loadedGrammars G
      \<or> \<not> suffix ''.json'' aGrammarPath
    \<longrightarrow> fst (loadGrammarFrom env aGrammarPath G) = None
        \<and> snd (snd (loadGrammarFrom env aGrammarPath G)) = G)
   \<and> (let G1 = snd (snd (loadGrammarFrom env aGrammarPath G))
      in fst (loadGrammarFrom env aGrammarPath G1) = None
         \<and> snd (snd (loadGrammarFrom env aGrammarPath G1)) = G1)"
  by (auto simp: loadGrammarFrom_def Let_def case_prod_beta register_loaded split: option.splits)

theorem loadGrammarFrom_idempotent_witness:
  "fst (loadGrammarFrom exLoader ''a.json'' exStore) = None
   \<and> snd (snd (loadGrammarFrom exLoader ''a.json'' exStore)) = exStore
   \<and> fst (loadGrammarFrom exLoader ''a.yaml'' exStore) = None
   \<and> snd (snd (loadGrammarFrom exLoader ''a.yaml'' exStore)) = exStore
   \<and> snd (snd (loadGrammarFrom exLoader ''b.json''
        (snd (snd (loadGrammarFrom exLoader ''b.json'' exStore)))))
      = snd (snd (loadGrammarFrom exLoader ''b.json'' exStore))
   \<and> originalScope2grammar (snd (snd (loadGrammarFrom exLoader ''b.json'' exStore)))
      = [(''source.t'', exGrammar ''source.t'' ''b'')]"
  using loadGrammarFrom_idempotent [of "''a.json''" exStore exLoader]
    loadGrammarFrom_idempotent [of "''a.yaml''" exStore exLoader]
    loadGrammarFrom_idempotent [of "''b.json''" exStore exLoader]
  by (simp add: exStore_def exLoader_def exGrammar_def loadGrammarFrom_def register_def rebuild_def
      deepcopy_def Let_def suffix_to_prefix)


section \<open>Choosing a grammar, documents and structures: properties\<close>

lemma firstLineLoop_step:
  "firstLineCompiles E g \<Longrightarrow>
   firstLineLoop E l ((s, g) # rest)
     = (if firstLineMatches E l g then Inr (Some s) else firstLineLoop E l rest)"
  "\<not> firstLineCompiles E g \<Longrightarrow> firstLineLoop E l ((s, g) # rest) = Inl SyntaxError"
  by (cases "firstLineMatch g"; auto simp: firstLineMatches_def firstLineCompiles_def jsMatch_def)+

lemma firstLineLoop_first:
  "\<forall>(s', g') \<in> set pre. firstLineCompiles E g' \<and> \<not> firstLineMatches E l g' \<Longrightarrow>
   firstLineCompiles E g \<Longrightarrow> firstLineMatches E l g \<Longrightarrow>
   firstLineLoop E l (pre @ (s, g) # post) = Inr (Some s)"
  by (induction pre) (auto simp: firstLineLoop_step simp del: firstLineLoop.simps)

lemma firstLineLoop_none:
  "\<forall>(s', g') \<in> set S. firstLineCompiles E g' \<and> \<not> firstLineMatches E l g' \<Longrightarrow>
   firstLineLoop E l S = Inr None"
  by (induction S) (auto simp: firstLineLoop_step simp del: firstLineLoop.simps(2))

lemma firstLineLoop_throws:
  "\<forall>(s', g') \<in> set pre. firstLineCompiles E g' \<and> \<not> firstLineMatches E l g' \<Longrightarrow>
   \<not> firstLineCompiles E g \<Longrightarrow>
   firstLineLoop E l (pre @ (s, g) # post) = Inl SyntaxError"
  by (induction pre) (auto simp: firstLineLoop_step simp del: firstLineLoop.simps)

lemma fileExtLoop_iff: "fileExtLoop p exts \<longleftrightarrow> (\<exists>e \<in> set exts. suffix e p)"
  by (induction exts) auto

lemma fileTypesLoop_first:
  "\<forall>(s', g') \<in> set pre. \<not> fileTypeMatches p g' \<Longrightarrow> fileTypeMatches p g \<Longrightarrow>
   fileTypesLoop p (pre @ (s, g) # post) = Some s"
  by (induction pre) (auto simp: fileTypeMatches_def fileExtLoop_iff split: option.splits)

lemma fileTypesLoop_none:
  "\<forall>(s', g') \<in> set S. \<not> fileTypeMatches p g' \<Longrightarrow> fileTypesLoop p S = None"
  by (induction S) (auto simp: fileTypeMatches_def fileExtLoop_iff split: option.splits)

text \<open>
  Claim C4. \<open>chooseBaseScope\<close> scans the grammars in the order of the working map, in two
  passes. It returns the scope of the first grammar whose first-line pattern matches the
  first line, whatever the file types of the grammars before it, when that pattern and
  the first-line patterns of the grammars before it compile; when every first-line pattern
  compiles and none matches, it returns the scope of the first grammar one of whose file
  types ends the path, and nothing when there is no such grammar; and it throws a
  \<open>SyntaxError\<close> when it reaches a first-line pattern that does not compile before one that
  matches.
\<close>

theorem chooseBaseScope_two_passes:
  "(scope2grammar G = pre @ (s, g) # post
      \<and> firstLineCompiles E g \<and> firstLineMatches E aFirstLine g
      \<and> (\<forall>(s', g') \<in> set pre. firstLineCompiles E g' \<and> \<not> firstLineMatches E aFirstLine g')
    \<longrightarrow> chooseBaseScope E G aDocPath aFirstLine = Inr (Some s))
   \<and> ((\<forall>(s', g') \<in> set (scope2grammar G).
          firstLineCompiles E g' \<and> \<not> firstLineMatches E aFirstLine g')
      \<and> scope2grammar G = pre @ (s, g) # post
      \<and> fileTypeMatches aDocPath g
      \<and> (\<forall>(s', g') \<in> set pre. \<not> fileTypeMatches aDocPath g')
    \<longrightarrow> chooseBaseScope E G aDocPath aFirstLine = Inr (Some s))
   \<and> ((\<forall>(s', g') \<in> set (scope2grammar G).
          firstLineCompiles E g' \<and> \<not> firstLineMatches E aFirstLine g')
      \<and> (\<forall>(s', g') \<in> set (scope2grammar G). \<not> fileTypeMatches aDocPath g')
    \<longrightarrow> chooseBaseScope E G aDocPath aFirstLine = Inr None)
   \<and> (scope2grammar G = pre @ (s, g) # post
      \<and> \<not> firstLineCompiles E g
      \<and> (\<forall>(s', g') \<in> set pre. firstLineCompiles E g' \<and> \<not> firstLineMatches E aFirstLine g')
    \<longrightarrow> chooseBaseScope E G aDocPath aFirstLine = Inl SyntaxError)"
proof (intro conjI impI)
  assume "scope2grammar G = pre @ (s, g) # post
      \<and> firstLineCompiles E g \<and> firstLineMatches E aFirstLine g
      \<and> (\<forall>(s', g') \<in> set pre. firstLineCompiles E g' \<and> \<not> firstLineMatches E aFirstLine g')"
  then have "firstLineLoop E aFirstLine (scope2grammar G) = Inr (Some s)"
    using firstLineLoop_first [of pre E aFirstLine g s post] by simp
  then show "chooseBaseScope E G aDocPath aFirstLine = Inr (Some s)"
    by (simp add: chooseBaseScope_def)
next
  assume a: "(\<forall>(s', g') \<in> set (scope2grammar G).
          firstLineCompiles E g' \<and> \<not> firstLineMatches E aFirstLine g')
      \<and> scope2grammar G = pre @ (s, g) # post
      \<and> fileTypeMatches aDocPath g
      \<and> (\<forall>(s', g') \<in> set pre. \<not> fileTypeMatches aDocPath g')"
  then have "firstLineLoop E aFirstLine (scope2grammar G) = Inr None"
    using firstLineLoop_none [of "scope2grammar G" E aFirstLine] by blast
  moreover have "fileTypesLoop aDocPath (scope2grammar G) = Some s"
    using a fileTypesLoop_first [of pre aDocPath g s post] by simp
  ultimately show "chooseBaseScope E G aDocPath aFirstLine = Inr (Some s)"
    by (simp add: chooseBaseScope_def)
next
  assume a: "(\<forall>(s', g') \<in> set (scope2grammar G).
          firstLineCompiles E g' \<and> \<not> firstLineMatches E aFirstLine g')
      \<and> (\<forall>(s', g') \<in> set (scope2grammar G). \<not> fileTypeMatches aDocPath g')"
  then have "firstLineLoop E aFirstLine (scope2grammar G) = Inr None"
    using firstLineLoop_none [of "scope2grammar G" E aFirstLine] by blast
  moreover have "fileTypesLoop aDocPath (scope2grammar G) = None"
    using a fileTypesLoop_none [of "scope2grammar G" aDocPath] by blast
  ultimately show "chooseBaseScope E G aDocPath aFirstLine = Inr None"
    by (simp add: chooseBaseScope_def)
next
  assume "scope2grammar G = pre @ (s, g) # post
      \<and> \<not> firstLineCompiles E g
      \<and> (\<forall>(s', g') \<in> set pre. firstLineCompiles E g' \<and> \<not> firstLineMatches E aFirstLine g')"
  then have "firstLineLoop E aFirstLine (scope2grammar G) = Inl SyntaxError"
    using firstLineLoop_throws [of pre E aFirstLine g s post] by simp
  then show "chooseBaseScope E G aDocPath aFirstLine = Inl SyntaxError"
    by (simp add: chooseBaseScope_def)
qed

theorem chooseBaseScope_two_passes_witness:
  "chooseBaseScope exEngine exSelectorStore ''run.sh'' ''#!/bin/sh'' = Inr (Some ''source.shebang'')
   \<and> chooseBaseScope exEngine exSelectorStore ''run.sh'' ''echo hi'' = Inr (Some ''source.ext'')
   \<and> chooseBaseScope exEngine exSelectorStore ''run.txt'' ''echo hi'' = Inr None
   \<and> chooseBaseScope exEngine exOnigStore ''run.sh'' ''#!/bin/sh'' = Inl SyntaxError"
proof -
  let ?g1 = "grammarOf ''source.ext'' (Some []) None (Some [''.sh'']) None"
  let ?g2 = "grammarOf ''source.shebang'' (Some []) None (Some [''.bash'']) (Some ''^#!'')"
  have m: "firstLineMatches exEngine ''#!/bin/sh'' ?g2" "\<not> firstLineMatches exEngine l ?g1"
    "\<not> firstLineMatches exEngine ''echo hi'' ?g2" for l
    by (simp_all add: firstLineMatches_def grammarOf_def exEngine_def exMatches_def)
  have c: "firstLineCompiles exEngine ?g1" "firstLineCompiles exEngine ?g2"
    "\<not> firstLineCompiles exEngine exOnigGrammar"
    by (simp_all add: firstLineCompiles_def grammarOf_def exEngine_def exOnigGrammar_def)
  have f: "fileTypeMatches ''run.sh'' ?g1" "\<not> fileTypeMatches ''run.txt'' ?g1"
    "\<not> fileTypeMatches ''run.txt'' ?g2"
    by (simp_all add: fileTypeMatches_def grammarOf_def suffix_to_prefix)
  have s: "scope2grammar exSelectorStore = [(''source.ext'', ?g1)] @ (''source.shebang'', ?g2) # []"
    "scope2grammar exSelectorStore = [] @ (''source.ext'', ?g1) # [(''source.shebang'', ?g2)]"
    "scope2grammar exOnigStore = [] @ (''g.onig'', exOnigGrammar) # []"
    by (simp_all add: exSelectorStore_def exOnigStore_def)
  note t1 = chooseBaseScope_two_passes [of exSelectorStore "[(''source.ext'', ?g1)]"
      "''source.shebang''" ?g2 "[]" exEngine "''#!/bin/sh''" "''run.sh''", THEN conjunct1, rule_format]
  note t2 = chooseBaseScope_two_passes [of exSelectorStore "[]" "''source.ext''" ?g1
      "[(''source.shebang'', ?g2)]" exEngine "''echo hi''" "''run.sh''",
      THEN conjunct2, THEN conjunct1, rule_format]
  note t3 = chooseBaseScope_two_passes [of exSelectorStore "[]" "''source.ext''" ?g1
      "[(''source.shebang'', ?g2)]" exEngine "''echo hi''" "''run.txt''",
      THEN conjunct2, THEN conjunct2, THEN conjunct1, rule_format]
  note t4 = chooseBaseScope_two_passes [of exOnigStore "[]" "''g.onig''" exOnigGrammar "[]"
      exEngine "''#!/bin/sh''" "''run.sh''",
      THEN conjunct2, THEN conjunct2, THEN conjunct2, rule_format]
  have a1: "chooseBaseScope exEngine exSelectorStore ''run.sh'' ''#!/bin/sh'' = Inr (Some ''source.shebang'')"
    by (rule t1) (simp add: m c s(1))
  have a2: "chooseBaseScope exEngine exSelectorStore ''run.sh'' ''echo hi'' = Inr (Some ''source.ext'')"
    by (rule t2) (simp add: m c f s(2))
  have a3: "chooseBaseScope exEngine exSelectorStore ''run.txt'' ''echo hi'' = Inr None"
    by (rule t3) (simp add: m c f s(2))
  have a4: "chooseBaseScope exEngine exOnigStore ''run.sh'' ''#!/bin/sh'' = Inl SyntaxError"
    by (rule t4) (simp add: c s(3))
  show ?thesis
    by (simp only: a1 a2 a3 a4 simp_thms)
qed

text \<open>
  As the specification states it, the file-type pass decides whenever no first-line
  pattern matches. With a grammar whose first-line pattern is not a regular expression of
  JavaScript, no pattern matches the line \<open>echo hi\<close> and the file type \<open>.sh\<close> ends the
  path, yet the call does not return the grammar: it throws.
\<close>

theorem chooseBaseScope_two_passes_counterexample:
  "scope2grammar exOnigStore = [(''g.onig'', exOnigGrammar)]
   \<and> \<not> firstLineMatches exEngine ''echo hi'' exOnigGrammar
   \<and> fileTypeMatches ''run.sh'' exOnigGrammar
   \<and> chooseBaseScope exEngine exOnigStore ''run.sh'' ''echo hi'' \<noteq> Inr (Some ''g.onig'')
   \<and> chooseBaseScope exEngine exOnigStore ''run.sh'' ''echo hi'' = Inl SyntaxError"
  by (simp add: exOnigStore_def exOnigGrammar_def firstLineMatches_def fileTypeMatches_def
      grammarOf_def exEngine_def exMatches_def chooseBaseScope_def jsMatch_def suffix_to_prefix)

lemma splitLines_nonempty: "splitLines s \<noteq> []"
  by (induction s) (auto split: list.splits)

text \<open>
  Claim C10. \<open>DocumentCache.loadFromStr\<close> and (when the file can be read)
  \<open>DocumentCache.loadFromFile\<close> store the new document under the name whatever the cache
  held there, so that \<open>getDocument\<close> returns the new document; \<open>Structures.newStructure\<close>
  keeps the structure already registered under the key and returns it, and registers the
  value only under a key that is not there.
\<close>

theorem loadFrom_last_wins:
  "getDocument (snd (loadFromStr aName docStr documents)) aName
     = Some \<lparr>filePath = [], docName = aName, docLines = splitLines docStr\<rparr>
   \<and> fst (loadFromStr aName docStr documents)
     = \<lparr>filePath = [], docName = aName, docLines = splitLines docStr\<rparr>
   \<and> (readFile env (normalizePath env aPath) = Some aDocStr \<longrightarrow>
        getDocument (snd (loadFromFile env aPath documents)) aPath
          = Some \<lparr>filePath = normalizePath env aPath, docName = aPath, docLines = splitLines aDocStr\<rparr>
        \<and> fst (loadFromFile env aPath documents)
          = Some \<lparr>filePath = normalizePath env aPath, docName = aPath, docLines = splitLines aDocStr\<rparr>)
   \<and> (mapData structs aKey = Some v0 \<longrightarrow>
        newStructure aKey v structs = (Some v0, structs))
   \<and> (mapData structs aKey = None \<longrightarrow>
        newStructure aKey v structs = (Some v, structs\<lparr>mapData := (mapData structs)(aKey \<mapsto> v)\<rparr>))"
  by (simp add: loadFromStr_def loadFromFile_def Document_loadFromFile_def refreshFromStr_def
      newDocument_def getDocument_def newStructure_def Let_def)

theorem loadFrom_last_wins_witness:
  "getDocument (snd (loadFromStr ''n'' ''new'' [''n'' \<mapsto> \<lparr>filePath = [], docName = ''n'', docLines = [''old'']\<rparr>])) ''n''
     = Some \<lparr>filePath = [], docName = ''n'', docLines = [''new'']\<rparr>
   \<and> getDocument (snd (loadFromFile exFiles ''doc.sh''
        [''doc.sh'' \<mapsto> \<lparr>filePath = [], docName = ''doc.sh'', docLines = [''old'']\<rparr>])) ''doc.sh''
     = Some \<lparr>filePath = ''/w/doc.sh'', docName = ''doc.sh'', docLines = [''ab'', ''c'']\<rparr>
   \<and> newStructure ''s'' (2::nat) (snd (newStructure ''s'' 1 newMap))
     = (Some 1, snd (newStructure ''s'' 1 newMap))"
  using loadFrom_last_wins [where aName = "''n''" and docStr = "''new''"
      and documents = "[''n'' \<mapsto> \<lparr>filePath = [], docName = ''n'', docLines = [''old'']\<rparr>]"
      and structs = "snd (newStructure ''s'' (1::nat) newMap)" and aKey = "''s''" and ?v0.0 = 1 and v = 2]
    loadFrom_last_wins [where env = exFiles and aPath = "''doc.sh''"
      and aDocStr = "''ab'' @ [CHR 0x0A] @ ''c''"
      and documents = "[''doc.sh'' \<mapsto> \<lparr>filePath = [], docName = ''doc.sh'', docLines = [''old'']\<rparr>]"
      and structs = "newMap :: nat jsMap"]
  by (simp add: exFiles_def newStructure_def newMap_def Let_def)

lemma registered_ownProps: "ownProps (foldl (\<lambda>s (k, v). snd (newStructure k v s)) S kvs) = ownProps S"
  by (induction kvs arbitrary: S) (auto simp: newStructure_def Let_def)

lemma getStructureNames_registered: "getStructureNames (registered kvs) = []"
  by (simp add: getStructureNames_def registered_def registered_ownProps newMap_def)

section \<open>Tracing: properties\<close>

lemma invocations_append: "invocations (xs @ ys) = invocations xs @ invocations ys"
  by (induction xs rule: invocations.induct) auto

lemma invocations_if:
  "invocations xs = [] \<Longrightarrow> invocations ys = [] \<Longrightarrow> invocations (if c then xs else ys) = []"
  by simp

lemma matchLoop_returns: "list_all (compiles E) rs \<Longrightarrow> \<not> isl (matchLoop E s rs)"
  by (induction rs) (auto simp: jsMatch_def)

lemma traceObj_returns:
  "\<not> t \<or> list_all (compiles E) (excludeRx opts) \<and> list_all (compiles E) (includeRx opts) \<Longrightarrow>
   \<not> isl (fst (traceObj E t opts s))"
  using matchLoop_returns [of E "excludeRx opts" s] matchLoop_returns [of E "includeRx opts" s]
  by (auto simp: traceObj_def split: sum.splits option.splits)

lemma traceObj_returns_cfg:
  assumes "\<not> t \<or> filtersCompile E cfg"
  shows "\<not> isl (fst (traceObj E t (traceLines cfg) s))"
    "\<not> isl (fst (traceObj E t (traceScopes cfg) s))"
    "\<not> isl (fst (traceObj E t (traceActions cfg) s))"
    "\<not> isl (fst (traceObj E t (traceStructures cfg) s))"
  using assms by (auto intro!: traceObj_returns simp: filtersCompile_def filtersOf_def)

lemma traceObj_silent: "invocations (snd (traceObj E t opts s)) = []"
  by (auto simp: traceObj_def split: sum.splits option.splits)

lemma scopesLoop_returns:
  assumes "\<not> trace cfg \<or> filtersCompile (regex W) cfg"
  shows "fst (scopesLoop W cfg showLine text ss s2r) = None"
  by (induction ss arbitrary: s2r)
    (simp_all add: case_prod_beta Let_def sum.case_eq_if traceObj_returns_cfg [OF assms])

lemma scopesLoop_silent:
  "invocations (fst (snd (scopesLoop W cfg showLine text ss s2r))) = []"
  by (induction ss arbitrary: s2r)
    (simp_all add: case_prod_beta Let_def sum.case_eq_if invocations_append traceObj_silent)

lemma scopesLoop_dispatch:
  assumes "\<not> trace cfg \<or> filtersCompile (regex W) cfg"
    and "\<not> trace cfg' \<or> filtersCompile (regex W) cfg'"
  shows "snd (snd (scopesLoop W cfg showLine text ss s2r))
     = snd (snd (scopesLoop W cfg' showLine' text ss s2r))"
  by (induction ss arbitrary: s2r)
    (simp_all add: case_prod_beta Let_def sum.case_eq_if
      traceObj_returns_cfg [OF assms(1)] traceObj_returns_cfg [OF assms(2)])

lemma tokensLoop_returns:
  assumes "\<not> trace cfg \<or> filtersCompile (regex W) cfg"
  shows "fst (tokensLoop W cfg showLine aLine ts s2r) = None"
  by (induction ts arbitrary: s2r)
    (simp_all add: case_prod_beta Let_def scopesLoop_returns [OF assms])

lemma tokensLoop_silent:
  "invocations (fst (snd (tokensLoop W cfg showLine aLine ts s2r))) = []"
  by (induction ts arbitrary: s2r)
    (simp_all add: case_prod_beta Let_def option.case_eq_if invocations_append scopesLoop_silent)

lemma tokensLoop_dispatch:
  assumes "\<not> trace cfg \<or> filtersCompile (regex W) cfg"
    and "\<not> trace cfg' \<or> filtersCompile (regex W) cfg'"
  shows "snd (snd (tokensLoop W cfg showLine aLine ts s2r))
     = snd (snd (tokensLoop W cfg' showLine' aLine ts s2r))"
proof (induction ts arbitrary: s2r)
  case Nil
  then show ?case by simp
next
  case (Cons t ts)
  have s: "snd (snd (scopesLoop W cfg showLine x (scopes t) s2r))
         = snd (snd (scopesLoop W cfg' showLine' x (scopes t) s2r))" for x
    by (rule scopesLoop_dispatch [OF assms])
  show ?case
    by (simp add: case_prod_beta Let_def scopesLoop_returns [OF assms(1)]
        scopesLoop_returns [OF assms(2)] s Cons.IH)
qed

lemma structuresLoop_silent:
  "invocations (snd (structuresLoop W cfg ns structs)) = []"
  by (induction ns)
    (simp_all add: case_prod_beta Let_def sum.case_eq_if invocations_append traceObj_silent
      logStructure_def option.case_eq_if)

lemma structuresLoop_returns:
  "\<not> trace cfg \<or> filtersCompile (regex W) cfg \<Longrightarrow> fst (structuresLoop W cfg ns structs) = None"
  by (induction ns)
    (simp_all add: case_prod_beta Let_def sum.case_eq_if traceObj_returns_cfg)

lemma runLoop_returns:
  assumes "\<not> trace cfg \<or> filtersCompile (regex W) cfg"
  shows "fst (runLoop W cfg names showLine n d s2r structs) = None"
proof (induction s2r arbitrary: structs showLine)
  case Nil
  then show ?case by simp
next
  case (Cons p s2r)
  obtain aScope someTokens where p: "p = (aScope, someTokens)"
    by (cases p)
  show ?case
    by (simp add: p case_prod_beta Let_def sum.case_eq_if Cons.IH
        structuresLoop_returns [OF assms] traceObj_returns_cfg [OF assms])
qed

lemma runLoop_dispatch:
  assumes "\<not> trace cfg \<or> filtersCompile (regex W) cfg"
    and "\<not> trace cfg' \<or> filtersCompile (regex W) cfg'"
    and "trace cfg = trace cfg'"
  shows "invocations (fst (snd (runLoop W cfg names showLine n d s2r structs)))
     = invocations (fst (snd (runLoop W cfg' names' showLine' n d s2r structs)))
   \<and> snd (snd (runLoop W cfg names showLine n d s2r structs))
     = snd (snd (runLoop W cfg' names' showLine' n d s2r structs))"
proof (induction s2r arbitrary: structs showLine showLine')
  case Nil
  then show ?case by simp
next
  case (Cons p s2r)
  obtain aScope someTokens where p: "p = (aScope, someTokens)"
    by (cases p)
  have ok: "\<not> trace cfg' \<or> filtersCompile (regex W) cfg"
    using assms(1,3) by simp
  show ?case
    using Cons.IH assms(3)
    by (simp add: p case_prod_beta Let_def sum.case_eq_if invocations_append traceObj_silent
        structuresLoop_silent structuresLoop_returns [OF assms(1)] structuresLoop_returns [OF assms(2)]
        traceObj_returns_cfg [OF ok] traceObj_returns_cfg [OF assms(2)])
qed

lemma linesLoop_returns:
  assumes "\<not> trace cfg \<or> filtersCompile (regex W) cfg"
  shows "fst (linesLoop W cfg names tok d n ls rs structs) = None"
  by (induction ls arbitrary: n rs structs)
    (simp_all add: case_prod_beta Let_def sum.case_eq_if
      traceObj_returns_cfg [OF assms] tokensLoop_returns [OF assms] runLoop_returns [OF assms])

lemma linesLoop_Cons_invocations:
  fixes W :: "('a, 'b) world"
  assumes "\<not> trace cfg \<or> filtersCompile (regex W) cfg"
  shows "invocations (fst (snd (linesLoop W cfg names tok d n (l # ls) rs structs))) =
     (let showLine = projr (fst (traceObj (regex W) (trace cfg) (traceLines cfg) l
                                   :: (js_error + bool) \<times> 'b event list));
          s2r = snd (snd (tokensLoop W cfg showLine l (fst (tok l rs)) []));
          r = runLoop W cfg names showLine n d s2r structs
      in invocations (fst (snd r))
         @ invocations (fst (snd (linesLoop W cfg names tok d (Suc n) ls (snd (tok l rs)) (snd (snd r))))))"
  by (simp add: case_prod_beta Let_def sum.case_eq_if invocations_append invocations_if
      traceObj_silent tokensLoop_silent traceObj_returns_cfg [OF assms] tokensLoop_returns [OF assms]
      runLoop_returns [OF assms] split del: if_split)

lemma linesLoop_Cons_state:
  fixes W :: "('a, 'b) world"
  assumes "\<not> trace cfg \<or> filtersCompile (regex W) cfg"
  shows "snd (snd (linesLoop W cfg names tok d n (l # ls) rs structs)) =
     (let showLine = projr (fst (traceObj (regex W) (trace cfg) (traceLines cfg) l
                                   :: (js_error + bool) \<times> 'b event list));
          s2r = snd (snd (tokensLoop W cfg showLine l (fst (tok l rs)) []));
          r = runLoop W cfg names showLine n d s2r structs
      in snd (snd (linesLoop W cfg names tok d (Suc n) ls (snd (tok l rs)) (snd (snd r)))))"
  by (simp add: case_prod_beta Let_def sum.case_eq_if
      traceObj_returns_cfg [OF assms] tokensLoop_returns [OF assms]
      runLoop_returns [OF assms] split del: if_split)

lemma linesLoop_dispatch:
  fixes W :: "('a, 'b) world"
  assumes "\<not> trace cfg \<or> filtersCompile (regex W) cfg"
    and "\<not> trace cfg' \<or> filtersCompile (regex W) cfg'"
    and "trace cfg = trace cfg'"
  shows "invocations (fst (snd (linesLoop W cfg names tok d n ls rs structs)))
     = invocations (fst (snd (linesLoop W cfg' names' tok d n ls rs structs)))
   \<and> snd (snd (linesLoop W cfg names tok d n ls rs structs))
     = snd (snd (linesLoop W cfg' names' tok d n ls rs structs))"
proof (induction ls arbitrary: n rs structs)
  case Nil
  then show ?case by simp
next
  case (Cons l ls)
  let ?tk = "fst (tok l rs)" and ?rs1 = "snd (tok l rs)"
  let ?sl = "projr (fst (traceObj (regex W) (trace cfg) (traceLines cfg) l
                           :: (js_error + bool) \<times> 'b event list))"
  let ?sl' = "projr (fst (traceObj (regex W) (trace cfg') (traceLines cfg') l
                            :: (js_error + bool) \<times> 'b event list))"
  let ?s2r = "snd (snd (tokensLoop W cfg ?sl l ?tk []))"
  have t: "snd (snd (tokensLoop W cfg' ?sl' l ?tk [])) = ?s2r"
    using tokensLoop_dispatch [OF assms(1,2), of ?sl l ?tk "[]" ?sl'] by simp
  let ?st1 = "snd (snd (runLoop W cfg names ?sl n d ?s2r structs))"
  have r: "invocations (fst (snd (runLoop W cfg' names' ?sl' n d ?s2r structs)))
        = invocations (fst (snd (runLoop W cfg names ?sl n d ?s2r structs)))"
      "snd (snd (runLoop W cfg' names' ?sl' n d ?s2r structs)) = ?st1"
    using runLoop_dispatch [OF assms, of names ?sl n d ?s2r structs names' ?sl'] by simp_all
  show ?case
    unfolding linesLoop_Cons_invocations [OF assms(1)] linesLoop_Cons_invocations [OF assms(2)]
      linesLoop_Cons_state [OF assms(1)] linesLoop_Cons_state [OF assms(2)] Let_def t r
    using Cons.IH [of "Suc n" ?rs1 ?st1] by simp
qed

text \<open>
  Claim C7. Two runs of \<open>traceParseOf\<close> on the same document, grammars and actions, with
  the same overall trace flag, and with filters whose regular expressions all compile
  (or with tracing off, when no filter is evaluated), call the same actions in the same
  order with the same arguments, fail or succeed alike and leave the same document cache
  and structure store, whatever the four filters are: such filters change only what is
  logged.
\<close>

theorem traceParseOf_filters_do_not_affect_dispatch:
  assumes "trace cfg = trace cfg'"
    and "\<not> trace cfg \<or> filtersCompile (regex W) cfg \<and> filtersCompile (regex W) cfg'"
  shows "invocations (fst (snd (traceParseOf W G aDocPath cfg documents structs)))
           = invocations (fst (snd (traceParseOf W G aDocPath cfg' documents structs)))
       \<and> fst (traceParseOf W G aDocPath cfg documents structs)
           = fst (traceParseOf W G aDocPath cfg' documents structs)
       \<and> snd (snd (traceParseOf W G aDocPath cfg documents structs))
           = snd (snd (traceParseOf W G aDocPath cfg' documents structs))"
proof -
  have ok: "\<not> trace cfg \<or> filtersCompile (regex W) cfg" "\<not> trace cfg' \<or> filtersCompile (regex W) cfg'"
    using assms by auto
  have l: "invocations (fst (snd (linesLoop W cfg names tok d n ls rs structs)))
         = invocations (fst (snd (linesLoop W cfg' names tok d n ls rs structs)))"
      "snd (snd (linesLoop W cfg names tok d n ls rs structs))
         = snd (snd (linesLoop W cfg' names tok d n ls rs structs))"
      "fst (linesLoop W cfg names tok d n ls rs structs) = None"
      "fst (linesLoop W cfg' names tok d n ls rs structs) = None" for names tok d n ls rs
    using linesLoop_dispatch [OF ok assms(1), of names tok d n ls rs structs names]
      linesLoop_returns [OF ok(1)] linesLoop_returns [OF ok(2)] by simp_all
  show ?thesis
    by (simp add: traceParseOf_def Let_def case_prod_beta invocations_append l
        split: option.splits prod.splits sum.splits)
qed

lemma traceObj_no_structure: "\<forall>e \<in> set (snd (traceObj E t opts s)). \<not> isStructureLogged e"
  by (auto simp: traceObj_def split: sum.splits option.splits)

lemma no_structure_append:
  "(\<forall>e \<in> set (xs @ ys). \<not> isStructureLogged e)
   \<longleftrightarrow> (\<forall>e \<in> set xs. \<not> isStructureLogged e) \<and> (\<forall>e \<in> set ys. \<not> isStructureLogged e)"
  by auto

lemma scopesLoop_no_structure:
  "\<forall>e \<in> set (fst (snd (scopesLoop W cfg showLine text ss s2r))). \<not> isStructureLogged e"
  by (induction ss arbitrary: s2r)
    (simp_all add: case_prod_beta Let_def sum.case_eq_if no_structure_append traceObj_no_structure
      del: set_append)

lemma tokensLoop_no_structure:
  "\<forall>e \<in> set (fst (snd (tokensLoop W cfg showLine aLine ts s2r))). \<not> isStructureLogged e"
  by (induction ts arbitrary: s2r)
    (simp_all add: case_prod_beta Let_def option.case_eq_if no_structure_append
      scopesLoop_no_structure del: set_append)

lemma actionsLoop_no_structure:
  "\<forall>e \<in> set (fst (actionsLoop as args structs)). \<not> isStructureLogged e"
  by (induction as arbitrary: structs) (auto simp: case_prod_beta Let_def)

lemma runLoop_no_structure:
  "\<forall>e \<in> set (fst (snd (runLoop W cfg [] showLine n d s2r structs))). \<not> isStructureLogged e"
proof (induction s2r arbitrary: structs showLine)
  case Nil
  then show ?case by simp
next
  case (Cons p s2r)
  obtain aScope someTokens where p: "p = (aScope, someTokens)"
    by (cases p)
  show ?case
    using Cons.IH
    by (auto simp: p case_prod_beta Let_def sum.case_eq_if no_structure_append traceObj_no_structure
        actionsLoop_no_structure simp del: set_append)
qed

lemma linesLoop_no_structure:
  "\<forall>e \<in> set (fst (snd (linesLoop W cfg [] tok d n ls rs structs))). \<not> isStructureLogged e"
proof (induction ls arbitrary: n rs structs)
  case Nil
  then show ?case by simp
next
  case (Cons l ls)
  show ?case
    using Cons.IH
    by (simp add: case_prod_beta Let_def sum.case_eq_if option.case_eq_if no_structure_append
        traceObj_no_structure tokensLoop_no_structure runLoop_no_structure del: set_append)
qed

text \<open>
  Claim C8. After any sequence of registrations with \<open>newStructure\<close>, starting from the
  empty store, \<open>getStructureNames\<close> returns the empty array (the entries of a \<open>Map\<close> are
  not among the keys \<open>Object.keys\<close> lists); and a run of \<open>traceParseOf\<close> on such a store
  logs no structure.
\<close>

theorem getStructureNames_always_empty:
  "getStructureNames (registered kvs) = []
   \<and> (\<forall>e \<in> set (fst (snd (traceParseOf W G aDocPath cfg documents (registered kvs)))).
        \<not> isStructureLogged e)"
  by (simp add: getStructureNames_registered traceParseOf_def Let_def case_prod_beta
      linesLoop_no_structure no_structure_append del: set_append
      split: option.splits prod.splits sum.splits)

lemma exTrace_events:
  "fst (snd (traceParseOf exWorld exSelectorStore ''doc.sh''
       (exConfig \<lparr>excludeRx = [], includeRx = []\<rparr>) Map.empty (registered [(''s'', 7)])))
   = [Traced ''--TRACING--'', Traced ''doc.sh (using source.ext)'',
   Traced ''-----------'', LineShown 0 ''ab'', TokenShown 0 2 ''ab'',
   ScopeShown ''source.ext'', ScopeShown ''kw'', ActionsEnter,
   ScopeTokensShown ''kw'' [''ab''],
   Invoked ''run.kw''
    \<lparr>scope = ''kw'', matched = [''ab''], lineNum = 0,
       doc = \<lparr>filePath = ''/w/doc.sh'', docName = ''doc.sh'', docLines = [''ab'', ''c'']\<rparr>,
       traceFlag = True\<rparr>,
   ActionsExit, LineShown 1 ''c'', TokenShown 0 1 ''c'',
   ScopeShown ''source.ext'', ScopeShown ''kw'', ActionsEnter,
   ScopeTokensShown ''kw'' [''c''],
   Invoked ''run.kw''
    \<lparr>scope = ''kw'', matched = [''c''], lineNum = 1,
       doc = \<lparr>filePath = ''/w/doc.sh'', docName = ''doc.sh'', docLines = [''ab'', ''c'']\<rparr>,
       traceFlag = True\<rparr>,
   ActionsExit]"
  by (simp add: traceParseOf_def exWorld_def exSelectorStore_def exConfig_def exFiles_def exAction_def
      exEngine_def exMatches_def grammarOf_def loadFromFile_def Document_loadFromFile_def refreshFromStr_def
      newDocument_def chooseBaseScope_def getStructureNames_registered traceObj_def substring_def
      pushToken_def jsMatch_def suffix_to_prefix Let_def)

lemma exTrace_events_filtered:
  "fst (snd (traceParseOf exWorld exSelectorStore ''doc.sh''
       (exConfig \<lparr>excludeRx = [''kw''], includeRx = []\<rparr>) Map.empty (registered [(''s'', 7)])))
   = [Traced ''--TRACING--'', Traced ''doc.sh (using source.ext)'',
   Traced ''-----------'', LineShown 0 ''ab'', TokenShown 0 2 ''ab'',
   ScopeShown ''source.ext'', Excluded ''kw'' ''kw'', Excluded ''kw'' ''kw'',
   Invoked ''run.kw''
    \<lparr>scope = ''kw'', matched = [''ab''], lineNum = 0,
       doc = \<lparr>filePath = ''/w/doc.sh'', docName = ''doc.sh'', docLines = [''ab'', ''c'']\<rparr>,
       traceFlag = True\<rparr>,
   LineShown 1 ''c'', TokenShown 0 1 ''c'', ScopeShown ''source.ext'',
   Excluded ''kw'' ''kw'', Excluded ''kw'' ''kw'',
   Invoked ''run.kw''
    \<lparr>scope = ''kw'', matched = [''c''], lineNum = 1,
       doc = \<lparr>filePath = ''/w/doc.sh'', docName = ''doc.sh'', docLines = [''ab'', ''c'']\<rparr>,
       traceFlag = True\<rparr>]"
  by (simp add: traceParseOf_def exWorld_def exSelectorStore_def exConfig_def exFiles_def exAction_def
      exEngine_def exMatches_def grammarOf_def loadFromFile_def Document_loadFromFile_def refreshFromStr_def
      newDocument_def chooseBaseScope_def getStructureNames_registered traceObj_def substring_def
      pushToken_def jsMatch_def suffix_to_prefix Let_def)

lemma exTrace_thrown:
  "traceParseOf exWorld exSelectorStore ''doc.sh''
       (exLinesConfig \<lparr>excludeRx = [''(''], includeRx = []\<rparr>) Map.empty (registered [(''s'', 7)])
   = (Some (Thrown SyntaxError),
      [Traced ''--TRACING--'', Traced ''doc.sh (using source.ext)'', Traced ''-----------''],
      [''doc.sh'' \<mapsto> \<lparr>filePath = ''/w/doc.sh'', docName = ''doc.sh'', docLines = [''ab'', ''c'']\<rparr>],
      registered [(''s'', 7)])"
  by (simp add: traceParseOf_def exWorld_def exSelectorStore_def exLinesConfig_def exConfig_def
      exFiles_def exAction_def
      exEngine_def exMatches_def grammarOf_def loadFromFile_def Document_loadFromFile_def refreshFromStr_def
      newDocument_def chooseBaseScope_def getStructureNames_registered traceObj_def substring_def
      pushToken_def jsMatch_def suffix_to_prefix Let_def)

lemma exTrace_lines_unfiltered:
  "exLinesConfig \<lparr>excludeRx = [], includeRx = []\<rparr> = exConfig \<lparr>excludeRx = [], includeRx = []\<rparr>"
  by (simp add: exLinesConfig_def exConfig_def)

theorem traceParseOf_filters_do_not_affect_dispatch_witness:
  "invocations (fst (snd (traceParseOf exWorld exSelectorStore ''doc.sh''
       (exConfig \<lparr>excludeRx = [''kw''], includeRx = []\<rparr>) Map.empty (registered [(''s'', 7)]))))
   = invocations (fst (snd (traceParseOf exWorld exSelectorStore ''doc.sh''
       (exConfig \<lparr>excludeRx = [], includeRx = []\<rparr>) Map.empty (registered [(''s'', 7)]))))
   \<and> invocations (fst (snd (traceParseOf exWorld exSelectorStore ''doc.sh''
       (exConfig \<lparr>excludeRx = [], includeRx = []\<rparr>) Map.empty (registered [(''s'', 7)]))))
   = [(''run.kw'', \<lparr>scope = ''kw'', matched = [''ab''], lineNum = 0,
         doc = \<lparr>filePath = ''/w/doc.sh'', docName = ''doc.sh'', docLines = [''ab'', ''c'']\<rparr>,
         traceFlag = True\<rparr>),
      (''run.kw'', \<lparr>scope = ''kw'', matched = [''c''], lineNum = 1,
         doc = \<lparr>filePath = ''/w/doc.sh'', docName = ''doc.sh'', docLines = [''ab'', ''c'']\<rparr>,
         traceFlag = True\<rparr>)]
   \<and> fst (snd (traceParseOf exWorld exSelectorStore ''doc.sh''
       (exConfig \<lparr>excludeRx = [''kw''], includeRx = []\<rparr>) Map.empty (registered [(''s'', 7)])))
   \<noteq> fst (snd (traceParseOf exWorld exSelectorStore ''doc.sh''
       (exConfig \<lparr>excludeRx = [], includeRx = []\<rparr>) Map.empty (registered [(''s'', 7)])))"
proof -
  have t: "trace (exConfig \<lparr>excludeRx = [''kw''], includeRx = []\<rparr>)
         = trace (exConfig \<lparr>excludeRx = [], includeRx = []\<rparr>)"
    by (simp add: exConfig_def)
  have c: "\<not> trace (exConfig \<lparr>excludeRx = [''kw''], includeRx = []\<rparr>)
       \<or> filtersCompile (regex exWorld) (exConfig \<lparr>excludeRx = [''kw''], includeRx = []\<rparr>)
         \<and> filtersCompile (regex exWorld) (exConfig \<lparr>excludeRx = [], includeRx = []\<rparr>)"
    by (simp add: exConfig_def exWorld_def exEngine_def filtersCompile_def filtersOf_def)
  from traceParseOf_filters_do_not_affect_dispatch [OF t c, of exSelectorStore "''doc.sh''"
      Map.empty "registered [(''s'', 7)]"]
  show ?thesis
    by (simp add: exTrace_events exTrace_events_filtered)
qed

text \<open>
  As the specification states it, the filters never change which actions are called.
  Two configurations with tracing on that differ only in the filter of the lines: with
  the filter \<open>(\<close>, which does not compile, \<open>traceObj\<close> throws at the first line and no
  action is called; with no filter both lines are dispatched.
\<close>

theorem traceParseOf_filters_do_not_affect_dispatch_counterexample:
  "trace (exLinesConfig \<lparr>excludeRx = [''(''], includeRx = []\<rparr>)
     = trace (exLinesConfig \<lparr>excludeRx = [], includeRx = []\<rparr>)
   \<and> (exLinesConfig \<lparr>excludeRx = [''(''], includeRx = []\<rparr>)
        \<lparr>traceLines := \<lparr>excludeRx = [], includeRx = []\<rparr>\<rparr>
     = exLinesConfig \<lparr>excludeRx = [], includeRx = []\<rparr>
   \<and> invocations (fst (snd (traceParseOf exWorld exSelectorStore ''doc.sh''
       (exLinesConfig \<lparr>excludeRx = [''(''], includeRx = []\<rparr>) Map.empty (registered [(''s'', 7)]))))
     = []
   \<and> invocations (fst (snd (traceParseOf exWorld exSelectorStore ''doc.sh''
       (exLinesConfig \<lparr>excludeRx = [], includeRx = []\<rparr>) Map.empty (registered [(''s'', 7)]))))
     = [(''run.kw'', \<lparr>scope = ''kw'', matched = [''ab''], lineNum = 0,
         doc = \<lparr>filePath = ''/w/doc.sh'', docName = ''doc.sh'', docLines = [''ab'', ''c'']\<rparr>,
         traceFlag = True\<rparr>),
      (''run.kw'', \<lparr>scope = ''kw'', matched = [''c''], lineNum = 1,
         doc = \<lparr>filePath = ''/w/doc.sh'', docName = ''doc.sh'', docLines = [''ab'', ''c'']\<rparr>,
         traceFlag = True\<rparr>)]
   \<and> fst (traceParseOf exWorld exSelectorStore ''doc.sh''
       (exLinesConfig \<lparr>excludeRx = [''(''], includeRx = []\<rparr>) Map.empty (registered [(''s'', 7)]))
     = Some (Thrown SyntaxError)"
proof -
  have a: "trace (exLinesConfig \<lparr>excludeRx = [''(''], includeRx = []\<rparr>)
     = trace (exLinesConfig \<lparr>excludeRx = [], includeRx = []\<rparr>)"
    "(exLinesConfig \<lparr>excludeRx = [''(''], includeRx = []\<rparr>)
        \<lparr>traceLines := \<lparr>excludeRx = [], includeRx = []\<rparr>\<rparr>
     = exLinesConfig \<lparr>excludeRx = [], includeRx = []\<rparr>"
    by (simp_all add: exLinesConfig_def exConfig_def)
  show ?thesis
    by (simp add: a exTrace_thrown exTrace_lines_unfiltered exTrace_events)
qed

theorem getStructureNames_always_empty_witness:
  "getStructureNames (registered [(''s'', 7::nat)]) = []
   \<and> mapData (registered [(''s'', 7::nat)]) ''s'' = Some 7
   \<and> filter isStructureLogged (fst (snd (traceParseOf exWorld exSelectorStore ''doc.sh''
       (exConfig \<lparr>excludeRx = [], includeRx = []\<rparr>) Map.empty (registered [(''s'', 7)])))) = []
   \<and> ActionsExit \<in> set (fst (snd (traceParseOf exWorld exSelectorStore ''doc.sh''
       (exConfig \<lparr>excludeRx = [], includeRx = []\<rparr>) Map.empty (registered [(''s'', 7)]))))"
proof -
  note th = getStructureNames_always_empty [of "[(''s'', 7::nat)]" exWorld exSelectorStore "''doc.sh''"
      "exConfig \<lparr>excludeRx = [], includeRx = []\<rparr>" Map.empty]
  have a: "mapData (registered [(''s'', 7::nat)]) ''s'' = Some 7"
    by (simp add: registered_def newStructure_def newMap_def Let_def)
  have b: "filter isStructureLogged (fst (snd (traceParseOf exWorld exSelectorStore ''doc.sh''
       (exConfig \<lparr>excludeRx = [], includeRx = []\<rparr>) Map.empty (registered [(''s'', 7)])))) = []"
    using th by (simp add: filter_empty_conv)
  have c: "ActionsExit \<in> set (fst (snd (traceParseOf exWorld exSelectorStore ''doc.sh''
       (exConfig \<lparr>excludeRx = [], includeRx = []\<rparr>) Map.empty (registered [(''s'', 7)]))))"
    by (simp add: exTrace_events)
  show ?thesis
    using th a b c by blast
qed

section \<open>Pruning: properties\<close>

lemma known_absorb:
  "aBaseScope \<in> knownBaseScopes st \<Longrightarrow>
   st\<lparr>knownBaseScopes := insert aBaseScope (knownBaseScopes st)\<rparr> = st"
  by (simp add: insert_absorb)

lemma keepGrammar_no_patterns:
  "gpatternsRef g = None \<Longrightarrow>
   keepGrammar (Suc fuel) aBaseScope g st
     = Some (kept st aBaseScope, st\<lparr>knownBaseScopes := insert aBaseScope (knownBaseScopes st)\<rparr>)"
  by (simp add: known_absorb kept_def)

lemma copyGrammar_patternsRef:
  "gpatternsRef (fst (copyGrammar g h)) = None \<longleftrightarrow> patterns g = None"
  by (simp add: copyGrammar_def case_prod_beta split: option.splits)

text \<open>
  Claim C2, as amended. For a grammar of the working map that has no \<open>patterns\<close>,
  \<open>keepGrammar\<close> returns whether the grammar's base scope is in the keep-set: false when it
  is not, true when it is (the keep-set is tested before the patterns). It only records the
  base scope as known.
\<close>

theorem keepGrammar_without_patterns:
  assumes "patterns aGrammar = None"
  shows "keepGrammar (Suc fuel) aBaseScope (fst (copyGrammar aGrammar h)) st
       = Some (kept st aBaseScope, st\<lparr>knownBaseScopes := insert aBaseScope (knownBaseScopes st)\<rparr>)"
  using assms by (intro keepGrammar_no_patterns) (simp add: copyGrammar_patternsRef)

theorem keepGrammar_without_patterns_witness:
  "patterns exNoPatterns = None
   \<and> map_option fst (keepGrammar (Suc 0) ''t'' (fst (copyGrammar exNoPatterns []))
        (exPruning exNoPatterns Map.empty)) = Some False"
  using keepGrammar_without_patterns [of exNoPatterns 0 "''t''" "[]" "exPruning exNoPatterns Map.empty"]
  by (simp add: exNoPatterns_def grammarOf_def exPruning_def kept_def)

text \<open>
  The claim as it was stated fails: for the grammar \<open>t\<close> with no \<open>patterns\<close> and the
  keep-set that holds \<open>t\<close>, \<open>keepGrammar\<close> returns true.
\<close>

theorem keepGrammar_without_patterns_counterexample:
  "patterns exNoPatterns = None
   \<and> map_of (s2g (exPruning exNoPatterns [''t'' \<mapsto> True])) ''t'' = Some (fst (copyGrammar exNoPatterns []))
   \<and> map_option fst (keepGrammar (Suc 0) ''t'' (fst (copyGrammar exNoPatterns []))
        (exPruning exNoPatterns [''t'' \<mapsto> True])) = Some True"
  by (simp add: exNoPatterns_def grammarOf_def exPruning_def kept_def copyGrammar_def)

lemma copyAll_exCyclic: "copyAll [(''t'', exCyclic)] [] = ([(''t'', cycGrammar)], [[cycB]])"
  by (simp add: exCyclic_def exCycleRepo_def grammarOf_def ruleIncluding_def copyGrammar_def
      cycGrammar_def cycA_def cycB_def)

lemma keepPatterns_None_cases:
  "keepPatterns fuel None p2k gRepo st = None \<or> keepPatterns fuel None p2k gRepo st = Some (False, p2k, st)"
  by (cases fuel) simp_all

lemma cycle_diverges:
  "keepRule fuel (Some cycA) {} [(''a'', cycA), (''b'', cycB)] (cycState {''t''}) = None
   \<and> keepRule fuel (Some cycB) {} [(''a'', cycA), (''b'', cycB)] (cycState {''t''}) = None
   \<and> keepInclude fuel (Some ''#a'') {} [(''a'', cycA), (''b'', cycB)] (cycState {''t''}) = None
   \<and> keepInclude fuel (Some ''#b'') {} [(''a'', cycA), (''b'', cycB)] (cycState {''t''}) = None"
proof (induction fuel)
  case 0
  then show ?case by simp
next
  case (Suc fuel)
  let ?repo = "[(''a'', cycA), (''b'', cycB)]"
  let ?st = "cycState {''t''}"
  have s: "\<not> keepScope ?st None" "\<not> keepCapture ?st None"
    by (simp_all add: keepScope_def keepCapture_def)
  have a: "keepRule (Suc fuel) (Some cycA) {} ?repo ?st = None"
    using Suc.IH keepPatterns_None_cases [of fuel "{}" ?repo ?st]
    by (auto simp: cycA_def ruleIncluding_def s)
  have b: "keepRule (Suc fuel) (Some cycB) {} ?repo ?st = None"
    using Suc.IH keepPatterns_None_cases [of fuel "{}" ?repo ?st]
    by (auto simp: cycB_def ruleIncluding_def s)
  have ia: "keepInclude (Suc fuel) (Some ''#a'') {} ?repo ?st = None"
    using Suc.IH by simp
  have ib: "keepInclude (Suc fuel) (Some ''#b'') {} ?repo ?st = None"
    using Suc.IH by simp
  show ?case
    using a b ia ib by simp
qed

lemma patternsLoop_diverges:
  "patternsLoop fuel 0 0 [] {} [(''a'', cycA), (''b'', cycB)] (cycState {''t''}) = None"
proof (cases fuel)
  case 0
  then show ?thesis by simp
next
  case (Suc n)
  have "arrayAt (heap (cycState {''t''})) 0 = [cycB]"
    by (simp add: cycState_def arrayAt_def)
  then show ?thesis
    using Suc cycle_diverges [of n] by simp
qed

lemma keepPatterns_diverges:
  "keepPatterns fuel (Some 0) {} [(''a'', cycA), (''b'', cycB)] (cycState {''t''}) = None"
  using patternsLoop_diverges by (cases fuel) simp_all

lemma keepGrammar_diverges: "keepGrammar fuel ''t'' cycGrammar (cycState {}) = None"
proof (cases fuel)
  case 0
  then show ?thesis by simp
next
  case (Suc n)
  have k: "(cycState {})\<lparr>knownBaseScopes := insert ''t'' (knownBaseScopes (cycState {}))\<rparr> = cycState {''t''}"
    by (simp add: cycState_def)
  have g: "gpatternsRef cycGrammar = Some 0" "grepository cycGrammar = Some [(''a'', cycA), (''b'', cycB)]"
    by (simp_all add: cycGrammar_def)
  have n: "\<not> kept (cycState {}) ''t''" "''t'' \<notin> knownBaseScopes (cycState {})"
    by (simp_all add: kept_def cycState_def)
  show ?thesis
    using keepPatterns_diverges [of n] by (simp add: Suc k g n del: keepPatterns.simps)
qed

text \<open>
  Two runs of the pruner that return: with the keep-set \<open>{kw.a}\<close> the rule \<open>kw.b\<close> is
  spliced out; and a cycle of includes that no root pattern reaches is never walked, and
  its repository keys are deleted.
\<close>

lemma pruneGrammars_unreached_cycle:
  "map_option (scope2grammar \<circ> fst) (pruneGrammars 10 Map.empty (storeOf [(''t'', exUnreached)]))
     = Some [(''t'', grammarOf ''t'' (Some []) (Some []) None None)]"
  by (simp add: pruneGrammars_def storeOf_def exUnreached_def exCycleRepo_def grammarOf_def
      ruleNamed_def ruleIncluding_def copyGrammar_def readAll_def readHeap_def readGrammars_def
      readGrammar_def readEntries_def readRule_def keepScope_def keepCapture_def kept_def
      arrayAt_def numeral_eq_Suc)

lemma pruneGrammars_keeps_named_rule:
  "map_option (scope2grammar \<circ> fst) (pruneGrammars 10 [''kw.a'' \<mapsto> True] (storeOf [(''t'', exKeywords)]))
     = Some [(''t'', grammarOf ''t'' (Some [ruleNamed ''kw.a'']) None None None)]"
  by (simp add: pruneGrammars_def storeOf_def exKeywords_def grammarOf_def
      ruleNamed_def copyGrammar_def readAll_def readHeap_def readGrammars_def
      readGrammar_def readEntries_def readRule_def keepScope_def keepCapture_def kept_def
      arrayAt_def numeral_eq_Suc)

text \<open>
  Claim C1 fails on the code. For the grammar whose root pattern includes \<open>#a\<close>, with \<open>#a\<close>
  including \<open>#b\<close> and \<open>#b\<close> including \<open>#a\<close>, and the empty keep-set, the walk of
  \<open>pruneGrammars\<close> does not return, whatever the depth of calls it is allowed: \<open>keepInclude\<close>
  and \<open>keepRule\<close> call each other without end.
\<close>

theorem pruneGrammars_cyclic_include_never_returns:
  "\<forall>fuel. pruneLoop fuel (fst (copyAll [(''t'', exCyclic)] []))
             \<lparr>heap = snd (copyAll [(''t'', exCyclic)] []), s2g = fst (copyAll [(''t'', exCyclic)] []),
              scopes2keep = Map.empty, knownBaseScopes = {}\<rparr> = None
          \<and> pruneGrammars fuel Map.empty (storeOf [(''t'', exCyclic)]) = None"
  using keepGrammar_diverges
  by (simp add: pruneGrammars_def storeOf_def copyAll_exCyclic cycState_def del: copyAll.simps)

lemma readHeap_snoc:
  "readHeap (h @ [arr]) =
     (case readHeap h of
        None \<Rightarrow> None
      | Some arrays \<Rightarrow>
          (case those (map (readRule arrays) arr) of
             None \<Rightarrow> None
           | Some ps \<Rightarrow> Some (arrays @ [ps])))"
  by (simp add: readHeap_def)

lemma readHeap_length: "readHeap h = Some arrays \<Longrightarrow> length arrays = length h"
proof (induction h arbitrary: arrays rule: rev_induct)
  case Nil
  then show ?case by (simp add: readHeap_def)
next
  case (snoc arr h)
  then show ?case
    by (auto simp: readHeap_snoc split: option.splits)
qed

lemma readRule_mono: "readRule arrays r = Some x \<Longrightarrow> readRule (arrays @ ext) r = Some x"
  by (auto simp: readRule_def nth_append split: option.splits if_splits)

lemma those_map_Some_iff:
  "those (map f xs) = Some ys \<longleftrightarrow> map f xs = map Some ys"
proof (induction xs arbitrary: ys)
  case Nil
  then show ?case by auto
next
  case (Cons x xs)
  then show ?case
    by (cases ys) (auto split: option.splits)
qed

lemma readRules_mono:
  "those (map (readRule arrays) rs) = Some xs \<Longrightarrow> those (map (readRule (arrays @ ext)) rs) = Some xs"
  unfolding those_map_Some_iff
  by (induction rs arbitrary: xs) (auto simp: readRule_mono)

lemma copy_roundtrip:
  "readHeap h = Some arrays \<Longrightarrow>
     \<exists>ext. readHeap (snd (copyRule r h)) = Some (arrays @ ext)
          \<and> readRule (arrays @ ext) (fst (copyRule r h)) = Some r"
  "readHeap h = Some arrays \<Longrightarrow>
     \<exists>ext. readHeap (snd (copyRules rs h)) = Some (arrays @ ext)
          \<and> those (map (readRule (arrays @ ext)) (fst (copyRules rs h))) = Some rs"
proof (induction r h and rs h arbitrary: arrays and arrays rule: copyRule_copyRules.induct)
  case (1 n sn cn inc pats repo caps bcaps ecaps exts flm oth h)
  show ?case
  proof (cases pats)
    case None
    then show ?thesis
      using "1.prems" by (auto simp: readRule_def intro: exI [of _ "[]"])
  next
    case (Some ps)
    from "1.IH" [OF Some "1.prems"] obtain ext where
      m: "readHeap (snd (copyRules ps h)) = Some (arrays @ ext)"
        "those (map (readRule (arrays @ ext)) (fst (copyRules ps h))) = Some ps"
      by blast
    have l: "length (snd (copyRules ps h)) = length (arrays @ ext)"
      using readHeap_length [OF m(1)] by simp
    show ?thesis
      using m l
      by (intro exI [of _ "ext @ [ps]"])
        (simp add: Some case_prod_beta readHeap_snoc readRule_def nth_append)
  qed
next
  case (2 h)
  then show ?case
    by (auto intro: exI [of _ "[]"])
next
  case (3 r rs h)
  from "3.IH"(1) [OF "3.prems"] obtain m1 where
    m1: "readHeap (snd (copyRule r h)) = Some (arrays @ m1)"
      "readRule (arrays @ m1) (fst (copyRule r h)) = Some r"
    by blast
  from "3.IH"(2) [OF prod.collapse m1(1)] obtain m2 where
    m2: "readHeap (snd (copyRules rs (snd (copyRule r h)))) = Some ((arrays @ m1) @ m2)"
      "those (map (readRule ((arrays @ m1) @ m2)) (fst (copyRules rs (snd (copyRule r h))))) = Some rs"
    by blast
  show ?case
    using m1 m2 readRule_mono [OF m1(2), of m2]
    by (intro exI [of _ "m1 @ m2"]) (simp add: case_prod_beta)
qed

lemma readEntries_Cons:
  "readEntries arrays ((k, r) # es) =
     (case readRule arrays r of
        None \<Rightarrow> None
      | Some x \<Rightarrow> map_option (Cons (k, x)) (readEntries arrays es))"
  by (simp add: readEntries_def split: option.splits)

lemma readEntries_Nil: "readEntries arrays [] = Some []"
  by (simp add: readEntries_def)

lemma readEntries_mono:
  "readEntries arrays es = Some xs \<Longrightarrow> readEntries (arrays @ ext) es = Some xs"
proof (induction es arbitrary: xs)
  case Nil
  then show ?case by (simp add: readEntries_Nil)
next
  case (Cons e es)
  obtain k r where e: "e = (k, r)"
    by (cases e)
  from Cons.prems obtain x xs' where
    x: "readRule arrays r = Some x" "readEntries arrays es = Some xs'" "xs = (k, x) # xs'"
    by (auto simp: e readEntries_Cons split: option.splits)
  show ?case
    using Cons.IH [OF x(2)] readRule_mono [OF x(1), of ext] x(3)
    by (simp add: e readEntries_Cons)
qed

lemma copyEntries_roundtrip:
  "readHeap h = Some arrays \<Longrightarrow>
     \<exists>ext. readHeap (snd (copyEntries es h)) = Some (arrays @ ext)
          \<and> readEntries (arrays @ ext) (fst (copyEntries es h)) = Some es"
proof (induction es arbitrary: h arrays)
  case Nil
  then show ?case
    by (auto simp: readEntries_Nil intro: exI [of _ "[]"])
next
  case (Cons e es)
  obtain k r where e: "e = (k, r)"
    by (cases e)
  from copy_roundtrip(1) [OF Cons.prems, of r] obtain m1 where
    m1: "readHeap (snd (copyRule r h)) = Some (arrays @ m1)"
      "readRule (arrays @ m1) (fst (copyRule r h)) = Some r"
    by blast
  from Cons.IH [OF m1(1)] obtain m2 where
    m2: "readHeap (snd (copyEntries es (snd (copyRule r h)))) = Some ((arrays @ m1) @ m2)"
      "readEntries ((arrays @ m1) @ m2) (fst (copyEntries es (snd (copyRule r h)))) = Some es"
    by blast
  show ?case
    using m1 m2 readRule_mono [OF m1(2), of m2]
    by (intro exI [of _ "m1 @ m2"]) (simp add: e case_prod_beta readEntries_Cons)
qed

lemma with_roundtrip:
  "withRepository (repository g) (withPatterns (patterns g) (withRepository None (withPatterns None g))) = g"
  by (cases g) simp

lemma with_commute:
  "withRepository r (withPatterns p g) = withPatterns p (withRepository r g)"
  by (cases g) simp

lemma readGrammar_mono:
  assumes "readGrammar arrays g = Some x"
  shows "readGrammar (arrays @ ext) g = Some x"
proof (cases "grepository g")
  case None
  then show ?thesis
    using assms by (auto simp: readGrammar_def nth_append split: option.splits if_splits)
next
  case (Some es)
  from assms obtain z where z: "readEntries arrays es = Some z"
    by (cases "readEntries arrays es") (auto simp: readGrammar_def Some split: option.splits if_splits)
  show ?thesis
    using assms z readEntries_mono [OF z, of ext]
    by (auto simp: readGrammar_def Some nth_append split: option.splits if_splits)
qed

lemma copyGrammar_roundtrip:
  assumes "readHeap h = Some arrays"
  shows "\<exists>ext. readHeap (snd (copyGrammar g h)) = Some (arrays @ ext)
          \<and> readGrammar (arrays @ ext) (fst (copyGrammar g h)) = Some g"
proof -
  obtain pref h1 where p: "(case patterns g of
              None \<Rightarrow> (None, h)
            | Some ps \<Rightarrow> (case copyRules ps h of (hps, h1) \<Rightarrow> (Some (length h1), h1 @ [hps]))) = (pref, h1)"
    by (cases "case patterns g of
              None \<Rightarrow> (None, h)
            | Some ps \<Rightarrow> (case copyRules ps h of (hps, h1) \<Rightarrow> (Some (length h1), h1 @ [hps]))")
  have "\<exists>m1. readHeap h1 = Some (arrays @ m1)
      \<and> (case pref of None \<Rightarrow> patterns g = None
          | Some a \<Rightarrow> a < length (arrays @ m1) \<and> patterns g = Some ((arrays @ m1) ! a))"
  proof (cases "patterns g")
    case None
    then show ?thesis
      using p assms by (auto intro: exI [of _ "[]"])
  next
    case (Some ps)
    from copy_roundtrip(2) [OF assms, of ps] obtain m where
      m: "readHeap (snd (copyRules ps h)) = Some (arrays @ m)"
        "those (map (readRule (arrays @ m)) (fst (copyRules ps h))) = Some ps"
      by blast
    have l: "length (snd (copyRules ps h)) = length (arrays @ m)"
      using readHeap_length [OF m(1)] by simp
    show ?thesis
      using p m l Some
      by (intro exI [of _ "m @ [ps]"]) (auto simp: case_prod_beta readHeap_snoc nth_append)
  qed
  then obtain m1 where m1: "readHeap h1 = Some (arrays @ m1)"
    "case pref of None \<Rightarrow> patterns g = None
          | Some a \<Rightarrow> a < length (arrays @ m1) \<and> patterns g = Some ((arrays @ m1) ! a)"
    by blast
  obtain repo h2 where r: "(case repository g of
                   None \<Rightarrow> (None, h1)
                 | Some es \<Rightarrow> (case copyEntries es h1 of (hes, h2) \<Rightarrow> (Some hes, h2))) = (repo, h2)"
    by (cases "case repository g of
                   None \<Rightarrow> (None, h1)
                 | Some es \<Rightarrow> (case copyEntries es h1 of (hes, h2) \<Rightarrow> (Some hes, h2))")
  have "\<exists>m2. readHeap h2 = Some ((arrays @ m1) @ m2)
      \<and> (case repo of None \<Rightarrow> repository g = None
          | Some hes \<Rightarrow> map_option Some (readEntries ((arrays @ m1) @ m2) hes) = Some (repository g))"
  proof (cases "repository g")
    case None
    then show ?thesis
      using r m1 by (auto intro: exI [of _ "[]"])
  next
    case (Some es)
    from copyEntries_roundtrip [OF m1(1), of es] obtain m where
      "readHeap (snd (copyEntries es h1)) = Some ((arrays @ m1) @ m)"
      "readEntries ((arrays @ m1) @ m) (fst (copyEntries es h1)) = Some es"
      by blast
    then show ?thesis
      using r Some by (intro exI [of _ m]) (auto simp: case_prod_beta)
  qed
  then obtain m2 where m2: "readHeap h2 = Some ((arrays @ m1) @ m2)"
    "case repo of None \<Rightarrow> repository g = None
          | Some hes \<Rightarrow> map_option Some (readEntries ((arrays @ m1) @ m2) hes) = Some (repository g)"
    by blast
  have c: "copyGrammar g h = (\<lparr>gprops = withRepository None (withPatterns None g), gpatternsRef = pref,
                 grepository = repo\<rparr>, h2)"
    by (simp add: copyGrammar_def p r)
  have "readGrammar ((arrays @ m1) @ m2) (fst (copyGrammar g h)) = Some g"
    using m1(2) m2(2) with_roundtrip [of g]
    by (auto simp: c readGrammar_def nth_append split: option.splits)
  then show ?thesis
    using m2(1) c by (intro exI [of _ "m1 @ m2"]) simp
qed

lemma readGrammars_Cons:
  "readGrammars arrays ((k, g) # gs) =
     (case readGrammar arrays g of
        None \<Rightarrow> None
      | Some x \<Rightarrow> map_option (Cons (k, x)) (readGrammars arrays gs))"
  by (simp add: readGrammars_def split: option.splits)

lemma readGrammars_Nil: "readGrammars arrays [] = Some []"
  by (simp add: readGrammars_def)

lemma copyAll_roundtrip:
  "readHeap h = Some arrays \<Longrightarrow>
     \<exists>ext. readHeap (snd (copyAll os h)) = Some (arrays @ ext)
          \<and> readGrammars (arrays @ ext) (fst (copyAll os h)) = Some os"
proof (induction os arbitrary: h arrays)
  case Nil
  then show ?case
    by (auto simp: readGrammars_Nil intro: exI [of _ "[]"])
next
  case (Cons e os)
  obtain k g where e: "e = (k, g)"
    by (cases e)
  from copyGrammar_roundtrip [OF Cons.prems, of g] obtain m1 where
    m1: "readHeap (snd (copyGrammar g h)) = Some (arrays @ m1)"
      "readGrammar (arrays @ m1) (fst (copyGrammar g h)) = Some g"
    by blast
  from Cons.IH [OF m1(1)] obtain m2 where
    m2: "readHeap (snd (copyAll os (snd (copyGrammar g h)))) = Some ((arrays @ m1) @ m2)"
      "readGrammars ((arrays @ m1) @ m2) (fst (copyAll os (snd (copyGrammar g h)))) = Some os"
    by blast
  show ?case
    using m1 m2 readGrammar_mono [OF m1(2), of m2]
    by (intro exI [of _ "m1 @ m2"]) (simp add: e case_prod_beta readGrammars_Cons)
qed

lemma readAll_copyAll: "readAll (snd (copyAll os [])) (fst (copyAll os [])) = Some os"
proof -
  have "readHeap [] = Some []"
    by (simp add: readHeap_def)
  from copyAll_roundtrip [OF this, of os] show ?thesis
    by (auto simp: readAll_def)
qed

lemma copyAll_keys: "map fst (fst (copyAll os h)) = map fst os"
  by (induction os arbitrary: h) (auto simp: case_prod_beta)

lemma pruneLoop_all_kept:
  "\<forall>k \<in> fst ` set gs. kept st k \<Longrightarrow>
   pruneLoop (Suc fuel) gs st = Some (st\<lparr>knownBaseScopes := knownBaseScopes st \<union> fst ` set gs\<rparr>)"
proof (induction gs arbitrary: st)
  case Nil
  then show ?case by simp
next
  case (Cons e gs)
  obtain k g where e: "e = (k, g)"
    by (cases e)
  let ?st1 = "st\<lparr>knownBaseScopes := insert k (knownBaseScopes st)\<rparr>"
  have k: "kept st k"
    using Cons.prems by (simp add: e)
  have g: "keepGrammar (Suc fuel) k g st = Some (True, ?st1)"
    using k by (simp add: insert_absorb)
  have "\<forall>k \<in> fst ` set gs. kept ?st1 k"
    using Cons.prems by (simp add: kept_def)
  from Cons.IH [OF this] show ?case
    using g by (simp add: e del: keepGrammar.simps)
qed

lemma knownScopesLoop_keys: "fst ` set gs \<subseteq> set (knownScopesLoop gs)"
  by (induction gs) auto

lemma keepSetOf_known:
  "store_inv G \<Longrightarrow> k \<in> fst ` set (originalScope2grammar G) \<Longrightarrow>
   keepSetOf (getKnownScopes G) k = Some True"
proof -
  assume i: "store_inv G" and k: "k \<in> fst ` set (originalScope2grammar G)"
  have "fst ` set (originalScope2grammar G) = fst ` set (scope2grammar G)"
    using i by (metis store_inv_def set_map)
  then have "k \<in> set (knownScopesLoop (scope2grammar G))"
    using k knownScopesLoop_keys by blast
  then show ?thesis
    by (simp add: keepSetOf_def getKnownScopes_def)
qed

text \<open>
  The store invariant holds in the initial store and is kept by every load (shown above)
  and by every pruning that returns: the pruner never adds or removes a key of \<open>s2g\<close>.
\<close>

lemma keys_preserved:
  "(\<forall>sp p2k repo st b p' st'. keepPatterns fuel sp p2k repo st = Some (b, p', st')
      \<longrightarrow> map fst (s2g st') = map fst (s2g st))
   \<and> (\<forall>a i d p2k repo st d' p' st'. patternsLoop fuel a i d p2k repo st = Some (d', p', st')
      \<longrightarrow> map fst (s2g st') = map fst (s2g st))
   \<and> (\<forall>r p2k repo st b p' st'. keepRule fuel r p2k repo st = Some (b, p', st')
      \<longrightarrow> map fst (s2g st') = map fst (s2g st))
   \<and> (\<forall>inc p2k repo st b p' st'. keepInclude fuel inc p2k repo st = Some (b, p', st')
      \<longrightarrow> map fst (s2g st') = map fst (s2g st))
   \<and> (\<forall>k g st b st'. k \<in> fst ` set (s2g st) \<longrightarrow> keepGrammar fuel k g st = Some (b, st')
      \<longrightarrow> map fst (s2g st') = map fst (s2g st))"
proof (induction fuel)
  case 0
  then show ?case by simp
next
  case (Suc fuel)
  note IH = Suc.IH
  note IHkp = IH [THEN conjunct1, rule_format]
  note IHpl = IH [THEN conjunct2, THEN conjunct1, rule_format]
  note IHkr = IH [THEN conjunct2, THEN conjunct2, THEN conjunct1, rule_format]
  note IHki = IH [THEN conjunct2, THEN conjunct2, THEN conjunct2, THEN conjunct1, rule_format]
  note IHkg = IH [THEN conjunct2, THEN conjunct2, THEN conjunct2, THEN conjunct2, rule_format]
  have kp: "map fst (s2g st') = map fst (s2g st)"
    if h: "keepPatterns (Suc fuel) sp p2k repo st = Some (b, p', st')" for sp p2k repo st b p' st'
  proof (cases sp)
    case None
    then show ?thesis using h by simp
  next
    case (Some a)
    then obtain d p1 st1 where l: "patternsLoop fuel a 0 [] p2k repo st = Some (d, p1, st1)"
      and e: "s2g st' = s2g st1"
      using h by (auto split: option.splits)
    show ?thesis
      using IHpl [OF l] e by simp
  qed
  have pl: "map fst (s2g st') = map fst (s2g st)"
    if h: "patternsLoop (Suc fuel) a i d p2k repo st = Some (d', p', st')" for a i d p2k repo st d' p' st'
  proof (cases "i < length (arrayAt (heap st) a)")
    case False
    then show ?thesis using h by simp
  next
    case True
    obtain k p1 st1 where
      r: "keepRule fuel (Some (arrayAt (heap st) a ! i)) p2k repo st = Some (k, p1, st1)"
      using h True
      by (cases "keepRule fuel (Some (arrayAt (heap st) a ! i)) p2k repo st") auto
    have l: "patternsLoop fuel a (Suc i) (if k then d else i # d) p1 repo st1 = Some (d', p', st')"
      using h True r by simp
    show ?thesis
      using IHkr [OF r] IHpl [OF l] by simp
  qed
  have ki: "map fst (s2g st') = map fst (s2g st)"
    if h: "keepInclude (Suc fuel) inc p2k repo st = Some (b, p', st')" for inc p2k repo st b p' st'
  proof -
    consider (same) "st' = st"
      | (rule) "keepRule fuel (map_of repo (drop 1 (the inc))) p2k repo st = Some (b, p', st')"
      | (grammar) g b' where "map_of (s2g st) (the inc) = Some g"
          "keepGrammar fuel (the inc) g st = Some (b', st')"
      using h by (auto split: if_splits option.splits)
    then show ?thesis
    proof cases
      case same
      then show ?thesis by simp
    next
      case rule
      then show ?thesis by (rule IHkr)
    next
      case grammar
      from grammar(1) have "the inc \<in> fst ` set (s2g st)"
        by (metis map_of_SomeD fst_conv image_eqI)
      then show ?thesis using grammar(2) by (rule IHkg)
    qed
  qed
  have kr: "map fst (s2g st') = map fst (s2g st)"
    if h: "keepRule (Suc fuel) r p2k repo st = Some (b, p', st')" for r p2k repo st b p' st'
  proof (cases r)
    case None
    then show ?thesis using h by simp
  next
    case (Some x)
    consider (same) "st' = st"
      | (pats) k p1 where "keepPatterns fuel (patternsRef x) p2k repo st = Some (k, p1, st')"
      | (inc) p1 st1 k p2 where "keepPatterns fuel (patternsRef x) p2k repo st = Some (False, p1, st1)"
          "keepInclude fuel (includeRef (props x)) p1 repo st1 = Some (k, p2, st')"
      using h Some by (auto split: if_splits option.splits)
    then show ?thesis
    proof cases
      case same
      then show ?thesis by simp
    next
      case pats
      then show ?thesis by (rule IHkp)
    next
      case inc
      show ?thesis
        using IHkp [OF inc(1)] IHki [OF inc(2)] by simp
    qed
  qed
  have kg: "map fst (s2g st') = map fst (s2g st)"
    if h: "k \<in> fst ` set (s2g st)" "keepGrammar (Suc fuel) k g st = Some (b, st')" for k g st b st'
  proof (cases "k \<in> knownBaseScopes st \<or> kept st k \<or> gpatternsRef g = None")
    case True
    then have "s2g st' = s2g st"
      using h(2) by (auto split: if_splits)
    then show ?thesis by simp
  next
    case False
    let ?st0 = "st\<lparr>knownBaseScopes := insert k (knownBaseScopes st)\<rparr>"
    let ?repo = "case grepository g of None \<Rightarrow> [] | Some r \<Rightarrow> r"
    from False obtain a where a: "gpatternsRef g = Some a"
      by auto
    obtain kt p2k st1 where w: "keepPatterns fuel (Some a) {} ?repo ?st0 = Some (kt, p2k, st1)"
      using h(2) False a by (cases "keepPatterns fuel (Some a) {} ?repo ?st0") auto
    have e: "map fst (s2g st1) = map fst (s2g st)"
      using IHkp [OF w] by simp
    then have m: "k \<in> set (map fst (s2g st1))"
      using h(1) by simp
    have "s2g st' = (case grepository g of
                             None \<Rightarrow> s2g st1
                           | Some r \<Rightarrow>
                               AList.update k
                                 (g\<lparr>grepository :=
                                    Some (filter (\<lambda>(aRepoKey, aRule). (''#'' @ aRepoKey) \<in> p2k) r)\<rparr>)
                                 (s2g st1))"
      using h(2) False a w by auto
    then show ?thesis
      using e m by (cases "grepository g") (simp_all add: update_keys)
  qed
  show ?case
    by (intro conjI allI impI) (erule kp pl kr ki, (erule (1) kg)?)+
qed

lemma pruneLoop_keys:
  "fst ` set gs \<subseteq> fst ` set (s2g st) \<Longrightarrow> pruneLoop fuel gs st = Some st' \<Longrightarrow>
   map fst (s2g st') = map fst (s2g st)"
proof (induction gs arbitrary: st)
  case Nil
  then show ?case by simp
next
  case (Cons e gs)
  obtain k g where e: "e = (k, g)"
    by (cases e)
  obtain b st1 where g: "keepGrammar fuel k g st = Some (b, st1)"
    using Cons.prems(2) by (cases "keepGrammar fuel k g st") (auto simp: e)
  have l: "pruneLoop fuel gs st1 = Some st'"
    using Cons.prems(2) g by (simp add: e)
  have k: "k \<in> fst ` set (s2g st)"
    using Cons.prems(1) by (simp add: e)
  have m: "map fst (s2g st1) = map fst (s2g st)"
    using keys_preserved [of fuel, THEN conjunct2, THEN conjunct2, THEN conjunct2, THEN conjunct2,
        rule_format, OF k g] .
  have "fst ` set gs \<subseteq> fst ` set (s2g st1)"
    using Cons.prems(1) m by (metis set_map set_subset_Cons subset_trans image_mono)
  from Cons.IH [OF this l] show ?case
    using m by simp
qed

lemma readGrammars_keys: "readGrammars arrays gs = Some ws \<Longrightarrow> map fst ws = map fst gs"
proof (induction gs arbitrary: ws)
  case Nil
  then show ?case by (simp add: readGrammars_Nil)
next
  case (Cons e gs)
  obtain k g where e: "e = (k, g)"
    by (cases e)
  from Cons.prems obtain x ws' where "readGrammars arrays gs = Some ws'" "ws = (k, x) # ws'"
    by (auto simp: e readGrammars_Cons split: option.splits)
  then show ?case
    using Cons.IH by (simp add: e)
qed

lemma pruneGrammars_inv:
  assumes "store_inv G" and "pruneGrammars fuel keepSet G = Some (G', keepSet')"
  shows "store_inv G'"
proof -
  let ?os = "originalScope2grammar G"
  let ?gs = "fst (copyAll ?os [])" and ?h = "snd (copyAll ?os [])"
  let ?st = "\<lparr>heap = ?h, s2g = ?gs, scopes2keep = keepSet, knownBaseScopes = {}\<rparr>"
  from assms(2) obtain st ws where
    l: "pruneLoop fuel ?gs ?st = Some st"
    and r: "readAll (heap st) (s2g st) = Some ws"
    and g: "G' = G\<lparr>scope2grammar := ws\<rparr>"
    by (auto simp: pruneGrammars_def case_prod_beta split: option.splits)
  have "map fst (s2g st) = map fst ?gs"
    using pruneLoop_keys [OF _ l] by simp
  moreover have "map fst ws = map fst (s2g st)"
    using r readGrammars_keys by (auto simp: readAll_def split: option.splits)
  ultimately have "map fst ws = map fst ?os"
    by (simp add: copyAll_keys)
  then show ?thesis
    using assms(1) g by (simp add: store_inv_def)
qed

lemma initGrammars_inv: "store_inv initGrammars"
  by (simp add: store_inv_def initGrammars_def)

text \<open>
  Claim C3. In a store whose two maps have the same keys (every store reached by loading
  is one), \<open>pruneGrammars\<close> called with the keep-set made of the output of \<open>getKnownScopes\<close>
  returns, with any fuel but none, and leaves as working map the deep copies of the
  originals, unchanged: every grammar's patterns and repository are those of the original.
\<close>

theorem pruneGrammars_with_known_scopes_changes_nothing:
  assumes "store_inv G"
  shows "pruneGrammars (Suc fuel) (keepSetOf (getKnownScopes G)) G
       = Some (G\<lparr>scope2grammar := map (\<lambda>(aScope, g). (aScope, deepcopy g)) (originalScope2grammar G)\<rparr>,
               keepSetOf (getKnownScopes G))"
proof -
  let ?os = "originalScope2grammar G"
  let ?gs = "fst (copyAll ?os [])" and ?h = "snd (copyAll ?os [])"
  let ?st = "\<lparr>heap = ?h, s2g = ?gs, scopes2keep = keepSetOf (getKnownScopes G), knownBaseScopes = {}\<rparr>"
  have "fst ` set ?gs = fst ` set ?os"
    using copyAll_keys [of ?os "[]"] by (metis set_map)
  then have "\<forall>k \<in> fst ` set ?gs. kept ?st k"
    using keepSetOf_known [OF assms] by (simp add: kept_def)
  from pruneLoop_all_kept [OF this, of fuel]
  have l: "pruneLoop (Suc fuel) ?gs ?st = Some (?st\<lparr>knownBaseScopes := fst ` set ?gs\<rparr>)"
    by simp
  have d: "map (\<lambda>(aScope, g). (aScope, deepcopy g)) ?os = ?os"
    by (induction ?os) (auto simp: deepcopy_def)
  show ?thesis
    using l readAll_copyAll [of ?os]
    by (simp add: pruneGrammars_def case_prod_beta d del: pruneLoop.simps)
qed

theorem pruneGrammars_with_known_scopes_changes_nothing_witness:
  "store_inv exPrunedStore
   \<and> getKnownScopes exPrunedStore = [''kw.a'', ''t'']
   \<and> map_option (scope2grammar \<circ> fst)
        (pruneGrammars (Suc 0) (keepSetOf (getKnownScopes exPrunedStore)) exPrunedStore)
      = Some [(''t'', exKeywords)]"
proof -
  have i: "store_inv exPrunedStore"
    by (simp add: store_inv_def exPrunedStore_def)
  have k: "getKnownScopes exPrunedStore = [''kw.a'', ''t'']"
    by (simp add: getKnownScopes_def exPrunedStore_def grammarOf_def ruleNamed_def scopeOf_def
        less_char_def less_eq_char_def list_le_def)
  have o: "originalScope2grammar exPrunedStore = [(''t'', exKeywords)]"
    by (simp add: exPrunedStore_def)
  show ?thesis
    using pruneGrammars_with_known_scopes_changes_nothing [OF i, of 0] i k
    by (simp add: o deepcopy_def)
qed

section \<open>Running the tool: properties\<close>

lemma completionOrder_set: "set (completionOrder ks xs) = set xs"
proof (induction ks xs rule: completionOrder.induct)
  case (3 k ks x xs)
  let ?ys = "x # xs"
  let ?i = "k mod length ?ys"
  have i: "?i < length ?ys"
    by simp
  have "set ?ys = set (take ?i ?ys @ ?ys ! ?i # drop (Suc ?i) ?ys)"
    using id_take_nth_drop [OF i] by simp
  then show ?case
    using "3.IH" by (simp del: take_Suc_Cons drop_Suc_Cons nth_Cons_Suc add: Un_commute insert_commute)
qed simp_all

lemma phase_events:
  "e \<in> set (fst (runActionsStartingWith registry scheduler p ns docs par)) \<Longrightarrow> prefix p (actionOf e)"
  by (auto simp: runActionsStartingWith_def resolveActions_def Let_def completionOrder_set
      split: if_splits)

lemma phase_starts:
  "a \<in> set registry \<Longrightarrow> prefix p a \<Longrightarrow>
   Started a \<in> set (fst (runActionsStartingWith registry scheduler p ns docs par))"
  by (auto simp: runActionsStartingWith_def resolveActions_def Let_def completionOrder_set)

lemma phase_settles:
  "a \<in> set registry \<Longrightarrow> prefix p a \<Longrightarrow>
   Settled a \<in> set (fst (runActionsStartingWith registry scheduler p ns docs par))"
  by (auto simp: runActionsStartingWith_def resolveActions_def Let_def completionOrder_set)

lemma phase_fulfilled: "snd (runActionsStartingWith registry scheduler p ns docs par)"
  by (simp add: runActionsStartingWith_def Let_def)

lemma runActionsStartingWith_contract:
  "phaseContract registry (runActionsStartingWith registry scheduler)"
  unfolding phaseContract_def
  by (intro allI conjI ballI impI) (simp_all add: phase_events phase_starts phase_settles)

lemma phases_differ:
  "\<not> (prefix ''initialize'' a \<and> prefix ''run'' a)"
  "\<not> (prefix ''initialize'' a \<and> prefix ''finalize'' a)"
  "\<not> (prefix ''run'' a \<and> prefix ''finalize'' a)"
  by (auto simp: prefix_def)

lemma earlier_part_before:
  assumes "t1 @ rest = pre @ e # post" and "e \<notin> set t1"
  shows "set t1 \<subseteq> set pre"
proof -
  from assms(1) obtain us where
    "t1 = pre @ us \<and> us @ rest = e # post \<or> t1 @ us = pre \<and> rest = us @ e # post"
    by (auto simp: append_eq_append_conv2)
  then show ?thesis
  proof
    assume a: "t1 = pre @ us \<and> us @ rest = e # post"
    show ?thesis
    proof (cases us)
      case Nil
      then show ?thesis using a by simp
    next
      case (Cons u us')
      then have "e \<in> set t1" using a by simp
      then show ?thesis using assms(2) by simp
    qed
  next
    assume "t1 @ us = pre \<and> rest = us @ e # post"
    then show ?thesis by auto
  qed
qed

lemma settledBefore_append:
  assumes "\<forall>e \<in> set t1. \<not> prefix later (actionOf e)"
    and "\<forall>a \<in> set registry. prefix earlier a \<longrightarrow> Settled a \<in> set t1"
  shows "settledBefore registry earlier later (t1 @ rest)"
  unfolding settledBefore_def
proof (intro allI impI ballI)
  fix pre post b a
  assume h: "t1 @ rest = pre @ Started b # post \<and> prefix later b"
    and a: "a \<in> set registry" "prefix earlier a"
  have "Started b \<notin> set t1"
    using assms(1) h by auto
  from earlier_part_before [OF conjunct1 [OF h] this] assms(2) a
  show "Settled a \<in> set pre"
    by blast
qed

lemma settledBefore_none:
  assumes "\<forall>e \<in> set tr. \<not> prefix later (actionOf e)"
  shows "settledBefore registry earlier later tr"
  unfolding settledBefore_def
proof (intro allI impI ballI)
  fix pre post b a
  assume h: "tr = pre @ Started b # post \<and> prefix later b"
  then have "Started b \<in> set tr"
    by simp
  then have "False"
    using assms h by auto
  then show "Settled a \<in> set pre" ..
qed

lemma sorted_phases:
  assumes "\<forall>e \<in> set t1. phaseNumber e = 0" "\<forall>e \<in> set t2. phaseNumber e = 1"
    "\<forall>e \<in> set t3. phaseNumber e = 2"
  shows "sorted (map phaseNumber t1)" "sorted (map phaseNumber (t1 @ t2))"
    "sorted (map phaseNumber (t1 @ t2 @ t3))"
proof -
  have s: "sorted (map phaseNumber ts)" if "\<forall>e \<in> set ts. phaseNumber e = n" for ts n
    using that by (induction ts) auto
  show "sorted (map phaseNumber t1)" "sorted (map phaseNumber (t1 @ t2))"
    "sorted (map phaseNumber (t1 @ t2 @ t3))"
    using assms s [OF assms(1)] s [OF assms(2)] s [OF assms(3)] by (simp_all add: sorted_append)
qed

lemma startedAndSettled_append:
  "startedAndSettled registry p t \<Longrightarrow> startedAndSettled registry p (pre @ t @ post)"
  by (auto simp: startedAndSettled_def)

lemma runTMGTool_under_contract:
  assumes "phaseContract registry callee"
  shows "(length (initialFiles cfg) < 1 \<longrightarrow> runTMGTool callee cfg = ProcessExit)
   \<and> sorted (map phaseNumber (eventsOf (runTMGTool callee cfg)))
   \<and> settledBefore registry ''initialize'' ''run'' (eventsOf (runTMGTool callee cfg))
   \<and> settledBefore registry ''run'' ''finalize'' (eventsOf (runTMGTool callee cfg))
   \<and> (\<not> length (initialFiles cfg) < 1
        \<and> snd (callee ''initialize'' ''lpic'' [] (parallel cfg))
        \<and> snd (callee ''run'' ''lpic'' (initialFiles cfg) (parallel cfg))
        \<and> snd (callee ''finalize'' ''lpic'' [] (parallel cfg))
      \<longrightarrow> runTMGTool callee cfg
            = Fulfilled (fst (callee ''initialize'' ''lpic'' [] (parallel cfg))
                @ fst (callee ''run'' ''lpic'' (initialFiles cfg) (parallel cfg))
                @ fst (callee ''finalize'' ''lpic'' [] (parallel cfg)))
          \<and> startedAndSettled registry ''initialize'' (eventsOf (runTMGTool callee cfg))
          \<and> startedAndSettled registry ''run'' (eventsOf (runTMGTool callee cfg))
          \<and> startedAndSettled registry ''finalize'' (eventsOf (runTMGTool callee cfg)))
   \<and> (\<not> length (initialFiles cfg) < 1
        \<and> \<not> snd (callee ''initialize'' ''lpic'' [] (parallel cfg))
      \<longrightarrow> runTMGTool callee cfg = Rejected (fst (callee ''initialize'' ''lpic'' [] (parallel cfg)))
          \<and> (\<forall>e \<in> set (eventsOf (runTMGTool callee cfg)). phaseNumber e = 0))
   \<and> (\<not> length (initialFiles cfg) < 1
        \<and> snd (callee ''initialize'' ''lpic'' [] (parallel cfg))
        \<and> \<not> snd (callee ''run'' ''lpic'' (initialFiles cfg) (parallel cfg))
      \<longrightarrow> runTMGTool callee cfg
            = Rejected (fst (callee ''initialize'' ''lpic'' [] (parallel cfg))
                @ fst (callee ''run'' ''lpic'' (initialFiles cfg) (parallel cfg)))
          \<and> (\<forall>e \<in> set (eventsOf (runTMGTool callee cfg)). phaseNumber e \<le> 1))
   \<and> (\<not> length (initialFiles cfg) < 1
        \<and> snd (callee ''initialize'' ''lpic'' [] (parallel cfg))
        \<and> snd (callee ''run'' ''lpic'' (initialFiles cfg) (parallel cfg))
        \<and> \<not> snd (callee ''finalize'' ''lpic'' [] (parallel cfg))
      \<longrightarrow> runTMGTool callee cfg
            = Rejected (fst (callee ''initialize'' ''lpic'' [] (parallel cfg))
                @ fst (callee ''run'' ''lpic'' (initialFiles cfg) (parallel cfg))
                @ fst (callee ''finalize'' ''lpic'' [] (parallel cfg))))"
proof -
  let ?c1 = "callee ''initialize'' ''lpic'' [] (parallel cfg)"
  let ?c2 = "callee ''run'' ''lpic'' (initialFiles cfg) (parallel cfg)"
  let ?c3 = "callee ''finalize'' ''lpic'' [] (parallel cfg)"
  let ?t1 = "fst ?c1" and ?t2 = "fst ?c2" and ?t3 = "fst ?c3"
  let ?out = "runTMGTool callee cfg"
  note c = assms [unfolded phaseContract_def, rule_format]
  have p1: "\<forall>e \<in> set ?t1. prefix ''initialize'' (actionOf e)"
    and p2: "\<forall>e \<in> set ?t2. prefix ''run'' (actionOf e)"
    and p3: "\<forall>e \<in> set ?t3. prefix ''finalize'' (actionOf e)"
    using c by blast+
  have n1: "\<forall>e \<in> set ?t1. phaseNumber e = 0"
    using p1 by simp
  have n2: "\<forall>e \<in> set ?t2. phaseNumber e = 1"
    using p2 phases_differ(1) by auto
  have n3: "\<forall>e \<in> set ?t3. phaseNumber e = 2"
    using p3 phases_differ(2,3) by auto
  have d1: "\<forall>e \<in> set ?t1. \<not> prefix ''run'' (actionOf e)"
    "\<forall>e \<in> set ?t1. \<not> prefix ''finalize'' (actionOf e)"
    using p1 phases_differ(1,2) by blast+
  have d2: "\<forall>e \<in> set (?t1 @ ?t2). \<not> prefix ''finalize'' (actionOf e)"
    using p1 p2 phases_differ(2,3) by auto
  have l1: "startedAndSettled registry ''initialize'' ?t1" if "snd ?c1"
    unfolding startedAndSettled_def using c that by blast
  have l2: "startedAndSettled registry ''run'' ?t2" if "snd ?c2"
    unfolding startedAndSettled_def using c that by blast
  have l3: "startedAndSettled registry ''finalize'' ?t3" if "snd ?c3"
    unfolding startedAndSettled_def using c that by blast
  have b1: "settledBefore registry ''initialize'' ''run'' (?t1 @ rest)" if "snd ?c1" for rest
    using settledBefore_append [OF d1(1), of registry "''initialize''" rest] l1 [OF that]
    by (simp add: startedAndSettled_def)
  have b2: "settledBefore registry ''run'' ''finalize'' ((?t1 @ ?t2) @ rest)" if "snd ?c2" for rest
    using settledBefore_append [OF d2, of registry "''run''" rest] l2 [OF that]
    by (simp add: startedAndSettled_def)
  have exit: "length (initialFiles cfg) < 1 \<longrightarrow> ?out = ProcessExit"
    by (simp add: runTMGTool_def)
  have full: "?out = Fulfilled (?t1 @ ?t2 @ ?t3)"
    if "\<not> length (initialFiles cfg) < 1" "snd ?c1" "snd ?c2" "snd ?c3"
    using that by (simp add: runTMGTool_def case_prod_beta)
  have r1: "?out = Rejected ?t1" if "\<not> length (initialFiles cfg) < 1" "\<not> snd ?c1"
    using that by (simp add: runTMGTool_def case_prod_beta)
  have r2: "?out = Rejected (?t1 @ ?t2)"
    if "\<not> length (initialFiles cfg) < 1" "snd ?c1" "\<not> snd ?c2"
    using that by (simp add: runTMGTool_def case_prod_beta)
  have r3: "?out = Rejected (?t1 @ ?t2 @ ?t3)"
    if "\<not> length (initialFiles cfg) < 1" "snd ?c1" "snd ?c2" "\<not> snd ?c3"
    using that by (simp add: runTMGTool_def case_prod_beta)
  consider (none) "eventsOf ?out = []"
    | (one) "\<not> snd ?c1" "eventsOf ?out = ?t1"
    | (two) "snd ?c1" "\<not> snd ?c2" "eventsOf ?out = ?t1 @ ?t2"
    | (three) "snd ?c1" "snd ?c2" "eventsOf ?out = ?t1 @ ?t2 @ ?t3"
    by (cases "length (initialFiles cfg) < 1"; cases "snd ?c1"; cases "snd ?c2"; cases "snd ?c3")
      (simp_all add: runTMGTool_def case_prod_beta)
  then have safe: "sorted (map phaseNumber (eventsOf ?out))
      \<and> settledBefore registry ''initialize'' ''run'' (eventsOf ?out)
      \<and> settledBefore registry ''run'' ''finalize'' (eventsOf ?out)"
  proof cases
    case none
    then show ?thesis
      by (simp add: settledBefore_def)
  next
    case one
    show ?thesis
      using sorted_phases(1) [OF n1 n2 n3] settledBefore_none [OF d1(1)] settledBefore_none [OF d1(2)]
      by (simp add: one(2))
  next
    case two
    show ?thesis
      using sorted_phases(2) [OF n1 n2 n3] b1 [OF two(1), of ?t2] settledBefore_none [OF d2]
      by (simp add: two(3))
  next
    case three
    show ?thesis
      using sorted_phases(3) [OF n1 n2 n3] b1 [OF three(1), of "?t2 @ ?t3"] b2 [OF three(2), of ?t3]
      by (simp add: three(3))
  qed
  have live: "startedAndSettled registry ''initialize'' (eventsOf ?out)
      \<and> startedAndSettled registry ''run'' (eventsOf ?out)
      \<and> startedAndSettled registry ''finalize'' (eventsOf ?out)"
    if h: "\<not> length (initialFiles cfg) < 1" "snd ?c1" "snd ?c2" "snd ?c3"
    using startedAndSettled_append [OF l1 [OF h(2)], of "[]" "?t2 @ ?t3"]
      startedAndSettled_append [OF l2 [OF h(3)], of ?t1 ?t3]
      startedAndSettled_append [OF l3 [OF h(4)], of "?t1 @ ?t2" "[]"]
    by (simp add: full [OF h])
  have q1: "\<forall>e \<in> set (eventsOf ?out). phaseNumber e = 0"
    if h: "\<not> length (initialFiles cfg) < 1" "\<not> snd ?c1"
    using n1 by (simp add: r1 [OF h] del: phaseNumber.simps)
  have q2: "\<forall>e \<in> set (eventsOf ?out). phaseNumber e \<le> 1"
    if h: "\<not> length (initialFiles cfg) < 1" "snd ?c1" "\<not> snd ?c2"
    using n1 n2 by (auto simp: r2 [OF h] simp del: phaseNumber.simps)
  show ?thesis
    using exit safe full live r1 q1 r2 q2 r3 by blast
qed

text \<open>
  Claim C5. With no initial file \<open>runTMGTool\<close> exits before any action. Otherwise, for
  every callee that keeps the contract of \<open>runActionsStartingWith\<close>, whatever the registry
  and the parallel flag: the events come phase by phase, in the order initialize, run,
  finalize; when an action of the run phase starts, every registered action of the
  initialize phase has settled, and when an action of the finalize phase starts, every
  registered action of the run phase has settled; when the three calls are fulfilled the
  tool is fulfilled and every registered action of the three phases has started and
  settled; and when a call is rejected the tool is rejected with the events up to there,
  and no action of a later phase starts. The model of \<open>runActionsStartingWith\<close> keeps the
  contract and its calls are fulfilled, whatever the order in which concurrent actions
  finish: with an initial file the tool is fulfilled, it has started and settled every
  registered action of the three phases, phase by phase and behind both barriers.
\<close>

theorem runTMGTool_phase_barrier:
  assumes "phaseContract registry callee"
  shows "(length (initialFiles cfg) < 1 \<longrightarrow> runTMGTool callee cfg = ProcessExit)
   \<and> sorted (map phaseNumber (eventsOf (runTMGTool callee cfg)))
   \<and> settledBefore registry ''initialize'' ''run'' (eventsOf (runTMGTool callee cfg))
   \<and> settledBefore registry ''run'' ''finalize'' (eventsOf (runTMGTool callee cfg))
   \<and> (\<not> length (initialFiles cfg) < 1
        \<and> snd (callee ''initialize'' ''lpic'' [] (parallel cfg))
        \<and> snd (callee ''run'' ''lpic'' (initialFiles cfg) (parallel cfg))
        \<and> snd (callee ''finalize'' ''lpic'' [] (parallel cfg))
      \<longrightarrow> runTMGTool callee cfg
            = Fulfilled (fst (callee ''initialize'' ''lpic'' [] (parallel cfg))
                @ fst (callee ''run'' ''lpic'' (initialFiles cfg) (parallel cfg))
                @ fst (callee ''finalize'' ''lpic'' [] (parallel cfg)))
          \<and> startedAndSettled registry ''initialize'' (eventsOf (runTMGTool callee cfg))
          \<and> startedAndSettled registry ''run'' (eventsOf (runTMGTool callee cfg))
          \<and> startedAndSettled registry ''finalize'' (eventsOf (runTMGTool callee cfg)))
   \<and> (\<not> length (initialFiles cfg) < 1
        \<and> \<not> snd (callee ''initialize'' ''lpic'' [] (parallel cfg))
      \<longrightarrow> runTMGTool callee cfg = Rejected (fst (callee ''initialize'' ''lpic'' [] (parallel cfg)))
          \<and> (\<forall>e \<in> set (eventsOf (runTMGTool callee cfg)). phaseNumber e = 0))
   \<and> (\<not> length (initialFiles cfg) < 1
        \<and> snd (callee ''initialize'' ''lpic'' [] (parallel cfg))
        \<and> \<not> snd (callee ''run'' ''lpic'' (initialFiles cfg) (parallel cfg))
      \<longrightarrow> runTMGTool callee cfg
            = Rejected (fst (callee ''initialize'' ''lpic'' [] (parallel cfg))
                @ fst (callee ''run'' ''lpic'' (initialFiles cfg) (parallel cfg)))
          \<and> (\<forall>e \<in> set (eventsOf (runTMGTool callee cfg)). phaseNumber e \<le> 1))
   \<and> (\<not> length (initialFiles cfg) < 1
        \<and> snd (callee ''initialize'' ''lpic'' [] (parallel cfg))
        \<and> snd (callee ''run'' ''lpic'' (initialFiles cfg) (parallel cfg))
        \<and> \<not> snd (callee ''finalize'' ''lpic'' [] (parallel cfg))
      \<longrightarrow> runTMGTool callee cfg
            = Rejected (fst (callee ''initialize'' ''lpic'' [] (parallel cfg))
                @ fst (callee ''run'' ''lpic'' (initialFiles cfg) (parallel cfg))
                @ fst (callee ''finalize'' ''lpic'' [] (parallel cfg))))
   \<and> phaseContract registry (runActionsStartingWith registry scheduler)
   \<and> (\<not> length (initialFiles cfg) < 1
      \<longrightarrow> (\<exists>tr. runTMGTool (runActionsStartingWith registry scheduler) cfg = Fulfilled tr
            \<and> startedAndSettled registry ''initialize'' tr
            \<and> startedAndSettled registry ''run'' tr
            \<and> startedAndSettled registry ''finalize'' tr
            \<and> sorted (map phaseNumber tr)
            \<and> settledBefore registry ''initialize'' ''run'' tr
            \<and> settledBefore registry ''run'' ''finalize'' tr))"
proof -
  let ?model = "runActionsStartingWith registry scheduler"
  note m = runTMGTool_under_contract [OF runActionsStartingWith_contract [of registry scheduler],
      where cfg = cfg]
  have f: "runTMGTool ?model cfg
      = Fulfilled (fst (?model ''initialize'' ''lpic'' [] (parallel cfg))
          @ fst (?model ''run'' ''lpic'' (initialFiles cfg) (parallel cfg))
          @ fst (?model ''finalize'' ''lpic'' [] (parallel cfg)))"
    if "\<not> length (initialFiles cfg) < 1"
    using that by (simp add: runTMGTool_def case_prod_beta phase_fulfilled)
  have "\<exists>tr. runTMGTool ?model cfg = Fulfilled tr
            \<and> startedAndSettled registry ''initialize'' tr
            \<and> startedAndSettled registry ''run'' tr
            \<and> startedAndSettled registry ''finalize'' tr
            \<and> sorted (map phaseNumber tr)
            \<and> settledBefore registry ''initialize'' ''run'' tr
            \<and> settledBefore registry ''run'' ''finalize'' tr"
    if h: "\<not> length (initialFiles cfg) < 1"
  proof -
    have "startedAndSettled registry ''initialize'' (eventsOf (runTMGTool ?model cfg))
        \<and> startedAndSettled registry ''run'' (eventsOf (runTMGTool ?model cfg))
        \<and> startedAndSettled registry ''finalize'' (eventsOf (runTMGTool ?model cfg))"
      using m h phase_fulfilled [of registry scheduler] by blast
    moreover have "sorted (map phaseNumber (eventsOf (runTMGTool ?model cfg)))
        \<and> settledBefore registry ''initialize'' ''run'' (eventsOf (runTMGTool ?model cfg))
        \<and> settledBefore registry ''run'' ''finalize'' (eventsOf (runTMGTool ?model cfg))"
      using m by blast
    ultimately show ?thesis
      by (simp add: f [OF h])
  qed
  then show ?thesis
    using runTMGTool_under_contract [OF assms, where cfg = cfg]
      runActionsStartingWith_contract [of registry scheduler]
    by blast
qed

lemma exRejecting_contract: "phaseContract exRegistry exRejecting"
  unfolding phaseContract_def
proof (intro allI)
  fix p ns docs par
  let ?model = "runActionsStartingWith exRegistry exScheduler p ns docs par"
  have c: "(\<forall>e \<in> set (fst ?model). prefix p (actionOf e))
        \<and> (\<forall>a \<in> set exRegistry. prefix p a \<longrightarrow>
                Started a \<in> set (fst ?model) \<and> Settled a \<in> set (fst ?model))"
    by (simp add: phase_events phase_starts phase_settles)
  show "(\<forall>e \<in> set (fst (exRejecting p ns docs par)). prefix p (actionOf e))
        \<and> (snd (exRejecting p ns docs par) \<longrightarrow>
             (\<forall>a \<in> set exRegistry. prefix p a \<longrightarrow>
                Started a \<in> set (fst (exRejecting p ns docs par))
                \<and> Settled a \<in> set (fst (exRejecting p ns docs par))))"
  proof (cases "p = ''run''")
    case True
    then show ?thesis
      by (simp add: exRejecting_def)
  next
    case False
    then show ?thesis
      using c by (simp add: exRejecting_def)
  qed
qed

theorem runTMGTool_phase_barrier_witness:
  "runTMGTool (runActionsStartingWith exRegistry exScheduler) exParallelConfig
     = Fulfilled [Started ''initialize.a'', Started ''initialize.d'', Settled ''initialize.d'',
        Settled ''initialize.a'', Started ''run.b'', Settled ''run.b'',
        Started ''finalize.c'', Settled ''finalize.c'']
   \<and> settledBefore exRegistry ''initialize'' ''run''
        [Started ''initialize.a'', Started ''initialize.d'', Settled ''initialize.d'',
        Settled ''initialize.a'', Started ''run.b'', Settled ''run.b'',
        Started ''finalize.c'', Settled ''finalize.c'']
   \<and> settledBefore exRegistry ''run'' ''finalize''
        [Started ''initialize.a'', Started ''initialize.d'', Settled ''initialize.d'',
        Settled ''initialize.a'', Started ''run.b'', Settled ''run.b'',
        Started ''finalize.c'', Settled ''finalize.c'']
   \<and> startedAndSettled exRegistry ''finalize''
        [Started ''initialize.a'', Started ''initialize.d'', Settled ''initialize.d'',
        Settled ''initialize.a'', Started ''run.b'', Settled ''run.b'',
        Started ''finalize.c'', Settled ''finalize.c'']
   \<and> runTMGTool exRejecting exParallelConfig
     = Rejected [Started ''initialize.a'', Started ''initialize.d'', Settled ''initialize.d'',
        Settled ''initialize.a'', Started ''run.b'', Settled ''run.b'']
   \<and> settledBefore exRegistry ''initialize'' ''run''
        [Started ''initialize.a'', Started ''initialize.d'', Settled ''initialize.d'',
        Settled ''initialize.a'', Started ''run.b'', Settled ''run.b'']"
proof -
  have f: "\<not> length (initialFiles exParallelConfig) < 1" "parallel exParallelConfig"
    "initialFiles exParallelConfig = [''doc.sh'']"
    by (simp_all add: exParallelConfig_def exConfig_def)
  have c: "runActionsStartingWith exRegistry exScheduler ''initialize'' ''lpic'' [] True
      = ([Started ''initialize.a'', Started ''initialize.d'', Settled ''initialize.d'',
          Settled ''initialize.a''], True)"
    "runActionsStartingWith exRegistry exScheduler ''run'' ''lpic'' [''doc.sh''] True
      = ([Started ''run.b'', Settled ''run.b''], True)"
    "runActionsStartingWith exRegistry exScheduler ''finalize'' ''lpic'' [] True
      = ([Started ''finalize.c'', Settled ''finalize.c''], True)"
    by (simp_all add: runActionsStartingWith_def resolveActions_def exRegistry_def
        exScheduler_def Let_def)
  have r: "exRejecting ''initialize'' ''lpic'' [] True
      = ([Started ''initialize.a'', Started ''initialize.d'', Settled ''initialize.d'',
          Settled ''initialize.a''], True)"
    "exRejecting ''run'' ''lpic'' [''doc.sh''] True = ([Started ''run.b'', Settled ''run.b''], False)"
    by (simp_all add: exRejecting_def c)
  have e1: "runTMGTool (runActionsStartingWith exRegistry exScheduler) exParallelConfig
     = Fulfilled [Started ''initialize.a'', Started ''initialize.d'', Settled ''initialize.d'',
        Settled ''initialize.a'', Started ''run.b'', Settled ''run.b'',
        Started ''finalize.c'', Settled ''finalize.c'']"
    by (simp add: runTMGTool_def f c)
  have e2: "runTMGTool exRejecting exParallelConfig
     = Rejected [Started ''initialize.a'', Started ''initialize.d'', Settled ''initialize.d'',
        Settled ''initialize.a'', Started ''run.b'', Settled ''run.b'']"
    by (simp add: runTMGTool_def f r)
  note th1 = runTMGTool_phase_barrier [OF runActionsStartingWith_contract [of exRegistry exScheduler],
      where cfg = exParallelConfig and scheduler = exScheduler]
  note th2 = runTMGTool_phase_barrier [OF exRejecting_contract,
      where cfg = exParallelConfig and scheduler = exScheduler]
  have a1: "settledBefore exRegistry ''initialize'' ''run''
        [Started ''initialize.a'', Started ''initialize.d'', Settled ''initialize.d'',
        Settled ''initialize.a'', Started ''run.b'', Settled ''run.b'',
        Started ''finalize.c'', Settled ''finalize.c'']"
    using th1 [THEN conjunct2, THEN conjunct2, THEN conjunct1] by (simp add: e1)
  have a2: "settledBefore exRegistry ''run'' ''finalize''
        [Started ''initialize.a'', Started ''initialize.d'', Settled ''initialize.d'',
        Settled ''initialize.a'', Started ''run.b'', Settled ''run.b'',
        Started ''finalize.c'', Settled ''finalize.c'']"
    using th1 [THEN conjunct2, THEN conjunct2, THEN conjunct2, THEN conjunct1] by (simp add: e1)
  have a3: "startedAndSettled exRegistry ''finalize''
        [Started ''initialize.a'', Started ''initialize.d'', Settled ''initialize.d'',
        Settled ''initialize.a'', Started ''run.b'', Settled ''run.b'',
        Started ''finalize.c'', Settled ''finalize.c'']"
    using th1 [THEN conjunct2, THEN conjunct2, THEN conjunct2, THEN conjunct2, THEN conjunct1]
    by (simp add: e1 f c)
  have a4: "settledBefore exRegistry ''initialize'' ''run''
        [Started ''initialize.a'', Started ''initialize.d'', Settled ''initialize.d'',
        Settled ''initialize.a'', Started ''run.b'', Settled ''run.b'']"
    using th2 [THEN conjunct2, THEN conjunct2, THEN conjunct1] by (simp add: e2)
  show ?thesis
    by (simp only: e1 e2 a1 a2 a3 a4 simp_thms)
qed

end
